theory Spec2Isabelle
  imports Main "HOL-Library.Char_ord" "HOL-Library.List_Lexorder" "HOL-Library.Product_Lexorder"
begin

section \<open>Utility functions\<close>

text \<open>
  C \<^verbatim>\<open>int\<close> values are modelled as \<^typ>\<open>int\<close>, C strings as \<^typ>\<open>string\<close> (the bytes before
  the terminating NUL). The program never calls \<^verbatim>\<open>setlocale\<close>, so \<^verbatim>\<open>tolower\<close> is the one
  of the "C" locale: it moves the 26 bytes \<^verbatim>\<open>'A'..'Z'\<close> (65..90) up by 32 and leaves every
  other byte alone. String lengths are taken to fit a C \<^verbatim>\<open>int\<close> with room for one more
  (below \<open>2^31 - 1\<close>), which is what \<^verbatim>\<open>int len1 = strlen(s1)\<close> and the loop
  \<^verbatim>\<open>i <= len1\<close> need; in that range no value the functions below compute leaves the
  range of \<^verbatim>\<open>int\<close> (lemma \<open>cell_le_max\<close>).
\<close>

definition min3 :: "int \<Rightarrow> int \<Rightarrow> int \<Rightarrow> int" where
  "min3 a b c =
     (let m = a;
          m = (if b < m then b else m);
          m = (if c < m then c else m)
      in m)"

definition tolower :: "char \<Rightarrow> char" where
  "tolower c =
     (let n = (of_char c :: nat)
      in if 65 \<le> n \<and> n \<le> 90 then char_of (n + 32) else c)"

definition str_to_lower :: "string \<Rightarrow> string" where
  "str_to_lower s = map tolower s"

section \<open>Levenshtein distance\<close>

text \<open>
  The three loops of \<^verbatim>\<open>levenshtein\<close>, over the two working rows \<^verbatim>\<open>prev\<close> and
  \<^verbatim>\<open>curr\<close> (here \<open>cur\<close>), arrays of \<open>len1 + 1\<close> cells updated in place by index:
  \<open>lev_init\<close> is the loop that fills \<^verbatim>\<open>prev\<close>, \<open>lev_inner\<close> the loop over \<^verbatim>\<open>i\<close> for the
  byte \<^verbatim>\<open>s2[j-1]\<close>, and \<open>lev_outer\<close> the loop over \<^verbatim>\<open>j\<close> with the swap of the rows.
\<close>

function lev_init :: "int list \<Rightarrow> nat \<Rightarrow> nat \<Rightarrow> int list" where
  "lev_init prev i len1 =
     (if i \<le> len1 then lev_init (prev[i := int i]) (i + 1) len1 else prev)"
  by pat_completeness auto
termination
  by (relation "measure (\<lambda>(prev, i, len1). len1 + 1 - i)") auto

declare lev_init.simps [simp del]

function lev_inner :: "string \<Rightarrow> char \<Rightarrow> int list \<Rightarrow> int list \<Rightarrow> nat \<Rightarrow> int list" where
  "lev_inner s1 c2 prev cur i =
     (if i \<le> length s1 then
        let cost = (if tolower (s1 ! (i - 1)) = tolower c2 then 0 else 1)
        in lev_inner s1 c2 prev
             (cur[i := min3 (prev ! i + 1) (cur ! (i - 1) + 1) (prev ! (i - 1) + cost)])
             (i + 1)
      else cur)"
  by pat_completeness auto
termination
  by (relation "measure (\<lambda>(s1, c2, prev, cur, i). length s1 + 1 - i)") auto

declare lev_inner.simps [simp del]

function lev_outer :: "string \<Rightarrow> string \<Rightarrow> int list \<Rightarrow> int list \<Rightarrow> nat \<Rightarrow> int list \<times> int list" where
  "lev_outer s1 s2 prev cur j =
     (if j \<le> length s2 then
        let cur = cur[0 := int j];
            cur = lev_inner s1 (s2 ! (j - 1)) prev cur 1
        in lev_outer s1 s2 cur prev (j + 1)
      else (prev, cur))"
  by pat_completeness auto
termination
  by (relation "measure (\<lambda>(s1, s2, prev, cur, j). length s2 + 1 - j)") auto

declare lev_outer.simps [simp del]

text \<open>
  \<^verbatim>\<open>malloc\<close> is the environment's: each of the two calls either fails (\<open>None\<close>, the
  NULL pointer) or hands out a block whose cells hold arbitrary values (\<open>Some g\<close>, cell
  \<open>i\<close> holding \<open>g i\<close>). Both calls are made before either result is tested, and only
  when both strings are non-empty.
\<close>

definition levenshtein :: "(nat \<Rightarrow> int) option \<Rightarrow> (nat \<Rightarrow> int) option \<Rightarrow> string \<Rightarrow> string \<Rightarrow> int" where
  "levenshtein m_prev m_cur s1 s2 =
     (if length s1 = 0 then int (length s2)
      else if length s2 = 0 then int (length s1)
      else
        let (s1, s2) = (if length s1 > length s2 then (s2, s1) else (s1, s2));
            len1 = length s1
        in case (m_prev, m_cur) of
             (Some g_prev, Some g_cur) \<Rightarrow>
               let prev = lev_init (map g_prev [0..<len1 + 1]) 0 len1;
                   (prev, cur) = lev_outer s1 s2 prev (map g_cur [0..<len1 + 1]) 1
               in prev ! len1
           | _ \<Rightarrow> - 1)"

subsection \<open>The distance of the specification\<close>

text \<open>
  The specification's words: the minimum number of single-character insertions, deletions
  and substitutions that transform one string into the other. One edit is \<open>edit_step\<close>
  (at any position of the string), \<open>n\<close> edits in a row are \<open>edit_step ^^ n\<close>, and the
  distance is the least such \<open>n\<close>.
\<close>

inductive edit_step :: "string \<Rightarrow> string \<Rightarrow> bool" where
  insertion: "edit_step (u @ v) (u @ c # v)"
| deletion: "edit_step (u @ c # v) (u @ v)"
| substitution: "c \<noteq> d \<Longrightarrow> edit_step (u @ c # v) (u @ d # v)"

definition edit_distance :: "string \<Rightarrow> string \<Rightarrow> nat" where
  "edit_distance xs ys = (LEAST n. (edit_step ^^ n) xs ys)"

text \<open>
  The textbook recurrence, used in the proofs only: \<open>ed\<close> on whole strings, and \<open>cell\<close>,
  the entry of the dynamic-programming matrix for the first \<open>i\<close> bytes of \<open>s1\<close> and the
  first \<open>j\<close> bytes of \<open>s2\<close>.
\<close>

fun ed :: "string \<Rightarrow> string \<Rightarrow> nat" where
  "ed [] ys = length ys"
| "ed (x # xs) [] = Suc (length xs)"
| "ed (x # xs) (y # ys) =
     min (min (ed xs (y # ys) + 1) (ed (x # xs) ys + 1)) (ed xs ys + (if x = y then 0 else 1))"

definition cell :: "string \<Rightarrow> string \<Rightarrow> nat \<Rightarrow> nat \<Rightarrow> nat" where
  "cell s1 s2 i j = ed (rev (take i (map tolower s1))) (rev (take j (map tolower s2)))"

subsection \<open>The SQL function\<close>

text \<open>
  \<^verbatim>\<open>sqlite_levenshtein\<close> is the function registered with the engine under the name
  \<^verbatim>\<open>levenshtein\<close>. An argument is a text or SQL NULL (\<open>None\<close>).
\<close>

datatype sql_result = Result_error string | Result_null | Result_int int

definition sqlite_levenshtein ::
    "(nat \<Rightarrow> int) option \<Rightarrow> (nat \<Rightarrow> int) option \<Rightarrow> string option list \<Rightarrow> sql_result" where
  "sqlite_levenshtein m_prev m_cur argv =
     (if length argv \<noteq> 2 then Result_error ''levenshtein requires 2 arguments''
      else case (argv ! 0, argv ! 1) of
             (Some s1, Some s2) \<Rightarrow> Result_int (levenshtein m_prev m_cur s1 s2)
           | _ \<Rightarrow> Result_null)"

section \<open>Strings and console input\<close>

definition isspace :: "char \<Rightarrow> bool" where
  "isspace c = (let n = (of_char c :: nat) in n = 32 \<or> (9 \<le> n \<and> n \<le> 13))"

definition isdigit :: "char \<Rightarrow> bool" where
  "isdigit c = (let n = (of_char c :: nat) in 48 \<le> n \<and> n \<le> 57)"

definition trim_whitespace :: "string \<Rightarrow> string" where
  "trim_whitespace str = rev (dropWhile isspace (rev (dropWhile isspace str)))"

text \<open>\<^verbatim>\<open>strstr(haystack, needle)\<close>: the tail of the haystack at the first occurrence.\<close>

fun strstr :: "string \<Rightarrow> string \<Rightarrow> string option" where
  "strstr [] needle = (if needle = [] then Some [] else None)"
| "strstr (h # hs) needle =
     (if take (length needle) (h # hs) = needle then Some (h # hs) else strstr hs needle)"

text \<open>
  \<^verbatim>\<open>atoi\<close>: leading white space, an optional sign, then the decimal digits. The C
  library computes it as \<^verbatim>\<open>(int) strtol(s, NULL, 10)\<close> (the C standard leaves a value out of
  range open): the value of the digits is held to the range of a 64-bit \<^verbatim>\<open>long\<close> and then
  cut to the 32 bits of an \<^verbatim>\<open>int\<close>, so that \<^verbatim>\<open>atoi("4294967296")\<close> is 0.
\<close>

fun atoi_digits :: "int \<Rightarrow> string \<Rightarrow> int" where
  "atoi_digits acc [] = acc"
| "atoi_digits acc (c # cs) =
     (if isdigit c then atoi_digits (10 * acc + (int (of_char c) - 48)) cs else acc)"

definition decimal_value :: "string \<Rightarrow> int" where
  "decimal_value s =
     (case dropWhile isspace s of
        [] \<Rightarrow> 0
      | c # cs \<Rightarrow>
          if c = CHR ''-'' then - atoi_digits 0 cs
          else if c = CHR ''+'' then atoi_digits 0 cs
          else atoi_digits 0 (c # cs))"

definition to_long :: "int \<Rightarrow> int" where
  "to_long v = max (- 9223372036854775808) (min 9223372036854775807 v)"

definition to_int :: "int \<Rightarrow> int" where
  "to_int v = (v + 2147483648) mod 4294967296 - 2147483648"

definition atoi :: "string \<Rightarrow> int" where
  "atoi s = to_int (to_long (decimal_value s))"

text \<open>\<^verbatim>\<open>snprintf(value_str, 32, "%d", value)\<close>.\<close>

function nat_digits :: "nat \<Rightarrow> string" where
  "nat_digits n =
     (if n < 10 then [char_of (48 + n)] else nat_digits (n div 10) @ [char_of (48 + n mod 10)])"
  by pat_completeness auto
termination
  by (relation "measure id") auto

declare nat_digits.simps [simp del]

definition fmt_d :: "int \<Rightarrow> string" where
  "fmt_d v = (if v < 0 then CHR ''-'' # nat_digits (nat (- v)) else nat_digits (nat v))"

text \<open>
  Standard input is the string of bytes not yet read. \<^verbatim>\<open>fgets(buf, n, stdin)\<close> fails at
  end of input, and otherwise takes at most \<open>n - 1\<close> bytes, stopping after a newline.
\<close>

definition fgets :: "nat \<Rightarrow> string \<Rightarrow> (string \<times> string) option" where
  "fgets n inp =
     (if inp = [] then None
      else
        let line = takeWhile (\<lambda>c. c \<noteq> CHR 0x0A) inp;
            chunk = (if length line < length inp then line @ [CHR 0x0A] else line);
            got = take (n - 1) chunk
        in Some (got, drop (length got) inp))"

definition get_confirmation :: "string \<Rightarrow> bool \<times> string" where
  "get_confirmation inp =
     (case fgets 16 inp of
        None \<Rightarrow> (False, inp)
      | Some (response, rest) \<Rightarrow>
          (case trim_whitespace response of
             [] \<Rightarrow> (False, rest)
           | c # _ \<Rightarrow> (c = CHR ''y'' \<or> c = CHR ''Y'', rest)))"

text \<open>
  \<^verbatim>\<open>is_substring_match\<close> copies each argument into a buffer of \<^verbatim>\<open>MAX_TAG_LENGTH\<close> = 256
  bytes (so at most 255 bytes of it), folds the copies and looks for either in the other.
\<close>

definition MAX_TAG_LENGTH :: nat where
  "MAX_TAG_LENGTH = 256"

definition is_substring_match :: "string \<Rightarrow> string \<Rightarrow> bool" where
  "is_substring_match s1 s2 =
     (let lower1 = str_to_lower (take (MAX_TAG_LENGTH - 1) s1);
          lower2 = str_to_lower (take (MAX_TAG_LENGTH - 1) s2)
      in strstr lower1 lower2 \<noteq> None \<or> strstr lower2 lower1 \<noteq> None)"

section \<open>The store\<close>

text \<open>
  The database the global handle \<^verbatim>\<open>db\<close> points to: one field per table of
  \<^verbatim>\<open>create_schema_v1\<close>, \<open>None\<close> while the table does not exist (preparing a statement on
  it then fails), and otherwise its rows in the order a scan of the table yields them.
  Row ids are the rowids the engine assigns (positive, and taken to fit a C \<^verbatim>\<open>int\<close>).
  The indexes change no result and are left out.
\<close>

record path_row =
  p_id :: nat
  p_path :: string
  p_name :: string
  p_is_directory :: int
  p_size :: "int option"
  p_parent_path :: "string option"

record store =
  t_paths :: "path_row list option"
  t_categories :: "(nat \<times> string) list option"
  t_path_categories :: "(nat \<times> nat) list option"
  t_tags :: "(nat \<times> string) list option"
  t_path_tags :: "(nat \<times> nat) list option"
  t_settings :: "(string \<times> string) list option"

definition DEFAULT_SCHEMA_VERSION :: int where "DEFAULT_SCHEMA_VERSION = 1"
definition DEFAULT_APP_VERSION :: int where "DEFAULT_APP_VERSION = 1"
definition DEFAULT_SIMILARITY_THRESHOLD :: int where "DEFAULT_SIMILARITY_THRESHOLD = 3"
definition DEFAULT_MAX_RESULTS :: int where "DEFAULT_MAX_RESULTS = 20"
definition DEFAULT_FUZZY_DISTANCE :: int where "DEFAULT_FUZZY_DISTANCE = 3"

subsection \<open>What the engine computes\<close>

text \<open>
  The engine's \<^verbatim>\<open>NOCASE\<close> collation compares two texts after folding the 26 ASCII upper
  case letters; its default collation (\<^verbatim>\<open>BINARY\<close>, the one of every column of the schema)
  compares bytes, which on \<^typ>\<open>string\<close> is \<open>=\<close> and the lexicographic order \<open>\<le>\<close>.
\<close>

definition nocase_eq :: "string \<Rightarrow> string \<Rightarrow> bool" where
  "nocase_eq a b = (map tolower a = map tolower b)"

text \<open>
  \<^verbatim>\<open>text LIKE pattern\<close>: in the pattern \<^verbatim>\<open>%\<close> stands for any run of characters, \<^verbatim>\<open>_\<close>
  for any one character, and every other character for itself, ASCII letters without
  regard to case. The engine steps through both texts by UTF-8 characters and refuses a
  pattern of more than 50000 bytes; \<open>like_match\<close> steps by bytes, and is the engine's
  \<^verbatim>\<open>LIKE\<close> for the patterns made of bytes below 128 within that length: an ASCII byte of
  the text is always a character of its own (no decoding swallows it), and a character of
  several bytes, well formed or not, equals no ASCII character of the pattern. Outside
  those patterns (a pattern byte from 128 on) \<open>like_match\<close> is not the engine's
  \<^verbatim>\<open>LIKE\<close>, and nothing below is stated there.
\<close>

fun like_match :: "string \<Rightarrow> string \<Rightarrow> bool" where
  "like_match [] s = (s = [])"
| "like_match (p # ps) s =
     (if p = CHR ''%'' then
        like_match ps s \<or> (case s of [] \<Rightarrow> False | _ # r \<Rightarrow> like_match (p # ps) r)
      else
        (case s of
           [] \<Rightarrow> False
         | c # r \<Rightarrow> (p = CHR ''_'' \<or> tolower p = tolower c) \<and> like_match ps r))"

text \<open>\<^verbatim>\<open>LIMIT n\<close>: the first \<open>n\<close> rows; a negative \<open>n\<close> is no limit at all.\<close>

definition sql_limit :: "int \<Rightarrow> 'a list \<Rightarrow> 'a list" where
  "sql_limit n rows = (if n < 0 then rows else take (nat n) rows)"

text \<open>The rowid of a new row: one more than the largest in the table.\<close>

definition new_rowid :: "(nat \<times> 'a) list \<Rightarrow> nat" where
  "new_rowid rows = fold max (map fst rows) 0 + 1"

subsection \<open>Settings\<close>

text \<open>
  A row of \<^verbatim>\<open>settings\<close> is a key and its value; both setters bind a text, so a value is
  never NULL. \<^verbatim>\<open>INSERT OR REPLACE\<close> removes the row of the key, if any, and adds the new one.
\<close>

definition get_int_setting :: "store \<Rightarrow> string \<Rightarrow> int \<Rightarrow> int" where
  "get_int_setting db key default_value =
     (case t_settings db of
        None \<Rightarrow> default_value
      | Some rows \<Rightarrow>
          (case map_of rows key of
             Some v \<Rightarrow> atoi v
           | None \<Rightarrow> default_value))"

definition set_string_setting :: "store \<Rightarrow> string \<Rightarrow> string \<Rightarrow> int \<times> store" where
  "set_string_setting db key v =
     (case t_settings db of
        None \<Rightarrow> (- 1, db)
      | Some rows \<Rightarrow>
          (0, db\<lparr>t_settings := Some (filter (\<lambda>(k, _). k \<noteq> key) rows @ [(key, v)])\<rparr>))"

definition set_int_setting :: "store \<Rightarrow> string \<Rightarrow> int \<Rightarrow> int \<times> store" where
  "set_int_setting db key v = set_string_setting db key (fmt_d v)"

section \<open>Database initialisation\<close>

definition table_names :: "store \<Rightarrow> string list" where
  "table_names db =
     (if t_paths db \<noteq> None then [''paths''] else []) @
     (if t_categories db \<noteq> None then [''categories''] else []) @
     (if t_path_categories db \<noteq> None then [''path_categories''] else []) @
     (if t_tags db \<noteq> None then [''tags''] else []) @
     (if t_path_tags db \<noteq> None then [''path_tags''] else []) @
     (if t_settings db \<noteq> None then [''settings''] else [])"

definition table_exists :: "store \<Rightarrow> string \<Rightarrow> bool" where
  "table_exists db table_name = (table_name \<in> set (table_names db))"

definition empty_store :: store where
  "empty_store =
     \<lparr>t_paths = None, t_categories = None, t_path_categories = None,
      t_tags = None, t_path_tags = None, t_settings = None\<rparr>"

definition if_not_exists :: "'a list option \<Rightarrow> 'a list option" where
  "if_not_exists t = (case t of None \<Rightarrow> Some [] | Some rows \<Rightarrow> Some rows)"

text \<open>
  \<^verbatim>\<open>create_schema_v1\<close> runs one script of \<^verbatim>\<open>CREATE TABLE IF NOT EXISTS\<close> statements;
  \<open>exec_ok\<close> says whether the engine runs it (when it does not, from its first statement).
\<close>

definition create_schema_v1 :: "bool \<Rightarrow> store \<Rightarrow> int \<times> store" where
  "create_schema_v1 exec_ok db =
     (if \<not> exec_ok then (- 1, db)
      else
        (0, db\<lparr>t_paths := if_not_exists (t_paths db),
                t_categories := if_not_exists (t_categories db),
                t_path_categories := if_not_exists (t_path_categories db),
                t_tags := if_not_exists (t_tags db),
                t_path_tags := if_not_exists (t_path_tags db),
                t_settings := if_not_exists (t_settings db)\<rparr>))"

definition insert_default_settings :: "store \<Rightarrow> store" where
  "insert_default_settings db =
     (let db = snd (set_int_setting db ''schema_version'' DEFAULT_SCHEMA_VERSION);
          db = snd (set_int_setting db ''app_version'' DEFAULT_APP_VERSION);
          db = snd (set_int_setting db ''similarity_threshold'' DEFAULT_SIMILARITY_THRESHOLD);
          db = snd (set_int_setting db ''max_results'' DEFAULT_MAX_RESULTS);
          db = snd (set_int_setting db ''fuzzy_default_distance'' DEFAULT_FUZZY_DISTANCE)
      in db)"

text \<open>\<^verbatim>\<open>INSERT OR IGNORE\<close>: the row is added unless the \<^verbatim>\<open>UNIQUE\<close> column already holds the name.\<close>

definition insert_or_ignore_name :: "(nat \<times> string) list \<Rightarrow> string \<Rightarrow> (nat \<times> string) list" where
  "insert_or_ignore_name rows n =
     (if n \<in> set (map snd rows) then rows else rows @ [(new_rowid rows, n)])"

definition insert_default_categories :: "store \<Rightarrow> store" where
  "insert_default_categories db =
     (case t_categories db of
        None \<Rightarrow> db
      | Some rows \<Rightarrow>
          db\<lparr>t_categories :=
               Some (fold (\<lambda>n rows. insert_or_ignore_name rows n)
                       [''Games'', ''Music'', ''Photos'', ''Documents'', ''Uncategorized''] rows)\<rparr>)"

text \<open>
  The migration statement: every path joins the category named exactly
  \<^verbatim>\<open>Uncategorized\<close>, a pair already present being skipped.
\<close>

definition migrate_paths :: "store \<Rightarrow> store" where
  "migrate_paths db =
     (case (t_paths db, t_categories db, t_path_categories db) of
        (Some ps, Some cs, Some pcs) \<Rightarrow>
          db\<lparr>t_path_categories :=
               Some (fold (\<lambda>pair pcs. if pair \<in> set pcs then pcs else pcs @ [pair])
                       (concat (map (\<lambda>p. map (\<lambda>c. (p_id p, fst c))
                                            (filter (\<lambda>c. snd c = ''Uncategorized'') cs)) ps))
                       pcs)\<rparr>
      | _ \<Rightarrow> db)"

text \<open>
  What \<^verbatim>\<open>init_database\<close> finds around it: whether the directory of the database path
  exists, whether the engine opens the file, registers the SQL function and runs the schema
  script. The database file is \<open>None\<close> when it does not exist; opening creates it, empty.
  The result is the return code, whether the handle \<^verbatim>\<open>db\<close> is left open, the database file,
  and the input not yet read.
\<close>

record init_env =
  dir_exists :: bool
  open_ok :: bool
  register_ok :: bool
  exec_ok :: bool

definition init_database ::
    "init_env \<Rightarrow> store option \<Rightarrow> string \<Rightarrow> int \<times> bool \<times> store option \<times> string" where
  "init_database env file inp =
     (if \<not> dir_exists env then (- 1, False, file, inp)
      else
        let is_new_db = (file = None) in
        if \<not> open_ok env then (- 1, False, file, inp)
        else
          let db = (case file of None \<Rightarrow> empty_store | Some db \<Rightarrow> db) in
          if \<not> register_ok env then (- 1, True, Some db, inp)
          else if is_new_db then
            (case create_schema_v1 (exec_ok env) db of (rc, db) \<Rightarrow>
               if rc \<noteq> 0 then (- 1, True, Some db, inp)
               else (0, True, Some (insert_default_categories (insert_default_settings db)), inp))
          else
            let current_version = get_int_setting db ''schema_version'' 0 in
            if current_version = 0 \<and> \<not> table_exists db ''settings'' then
              (case get_confirmation inp of (yes, inp) \<Rightarrow>
                 if \<not> yes then (- 1, False, Some db, inp)
                 else
                   (case create_schema_v1 (exec_ok env) db of (rc, db) \<Rightarrow>
                      if rc \<noteq> 0 then (- 1, True, Some db, inp)
                      else
                        (0, True,
                         Some (migrate_paths (insert_default_categories (insert_default_settings db))),
                         inp)))
            else if current_version < DEFAULT_SCHEMA_VERSION then (0, True, Some db, inp)
            else (0, True, Some db, inp))"

text \<open>\<^verbatim>\<open>main\<close> after its argument parsing: the interactive loop runs only after a return of 0.\<close>

definition main_starts_cli :: "init_env \<Rightarrow> store option \<Rightarrow> string \<Rightarrow> bool" where
  "main_starts_cli env file inp = (\<not> (fst (init_database env file inp) \<noteq> 0))"

section \<open>Categories\<close>

definition get_category_id :: "store \<Rightarrow> string \<Rightarrow> int" where
  "get_category_id db n =
     (case t_categories db of
        None \<Rightarrow> - 1
      | Some rows \<Rightarrow>
          (case find (\<lambda>row. nocase_eq (snd row) n) rows of
             Some row \<Rightarrow> int (fst row)
           | None \<Rightarrow> - 1))"

text \<open>
  \<^verbatim>\<open>INSERT INTO categories (name) VALUES (?)\<close>: the step fails when the \<^verbatim>\<open>UNIQUE\<close>
  column \<^verbatim>\<open>name\<close>, declared \<^verbatim>\<open>TEXT UNIQUE NOT NULL\<close> with the default collation, already
  holds the same bytes.
\<close>

definition create_category :: "store \<Rightarrow> string \<Rightarrow> int \<times> store" where
  "create_category db n =
     (case t_categories db of
        None \<Rightarrow> (- 1, db)
      | Some rows \<Rightarrow>
          if n \<in> set (map snd rows) then (- 1, db)
          else (int (new_rowid rows), db\<lparr>t_categories := Some (rows @ [(new_rowid rows, n)])\<rparr>))"

section \<open>Tags and the similarity check\<close>

definition get_tag_id :: "store \<Rightarrow> string \<Rightarrow> int" where
  "get_tag_id db n =
     (case t_tags db of
        None \<Rightarrow> - 1
      | Some rows \<Rightarrow>
          (case find (\<lambda>row. nocase_eq (snd row) n) rows of
             Some row \<Rightarrow> int (fst row)
           | None \<Rightarrow> - 1))"

definition create_tag :: "store \<Rightarrow> string \<Rightarrow> int \<times> store" where
  "create_tag db n =
     (case t_tags db of
        None \<Rightarrow> (- 1, db)
      | Some rows \<Rightarrow>
          if n \<in> set (map snd rows) then (- 1, db)
          else (int (new_rowid rows), db\<lparr>t_tags := Some (rows @ [(new_rowid rows, n)])\<rparr>))"

text \<open>
  The variables of \<^verbatim>\<open>find_similar_tags\<close>: its return value \<^verbatim>\<open>found_count\<close>, its local
  \<^verbatim>\<open>best_distance\<close> and its three out-parameters (\<^verbatim>\<open>*similar_distance\<close> is \<open>None\<close> until
  it is first written). The loop body is \<open>similar_step\<close>, the loop over the rows
  \<open>similar_loop\<close>; the \<open>k\<close>-th row's call of \<^verbatim>\<open>levenshtein\<close> gets its two blocks from
  \<open>heap k\<close>. When the statement cannot be prepared the function returns 0 at once, its
  out-parameters unwritten; the caller reads them only after a positive return. The sum
  \<^verbatim>\<open>threshold + 1\<close> is the mathematical one: it is the C one for every threshold below
  the largest \<^verbatim>\<open>int\<close>, and at that threshold C leaves the sum open.
\<close>

type_synonym alloc = "(nat \<Rightarrow> int) option \<times> (nat \<Rightarrow> int) option"

record similar =
  found_count :: int
  best_distance :: int
  similar_name :: string
  similar_distance :: "int option"
  is_substring :: int

definition similar_step :: "alloc \<Rightarrow> string \<Rightarrow> nat \<Rightarrow> int \<Rightarrow> string \<Rightarrow> similar \<Rightarrow> similar" where
  "similar_step al new_tag name_size threshold existing st =
     (if is_substring_match new_tag existing then
        (if found_count st = 0 \<or> is_substring st = 0 then
           st\<lparr>similar_name := take (name_size - 1) existing,
              similar_distance := Some \<bar>int (length new_tag) - int (length existing)\<bar>,
              is_substring := 1,
              found_count := found_count st + 1\<rparr>
         else st)
      else
        let dist = levenshtein (fst al) (snd al) new_tag existing in
        if dist > 0 \<and> dist \<le> threshold \<and> dist < best_distance st then
          st\<lparr>similar_name := take (name_size - 1) existing,
             similar_distance := Some dist,
             is_substring := 0,
             best_distance := dist,
             found_count := found_count st + 1\<rparr>
        else st)"

fun similar_loop ::
    "(nat \<Rightarrow> alloc) \<Rightarrow> string \<Rightarrow> nat \<Rightarrow> int \<Rightarrow> nat \<Rightarrow> string list \<Rightarrow> similar \<Rightarrow> similar" where
  "similar_loop heap new_tag name_size threshold k [] st = st"
| "similar_loop heap new_tag name_size threshold k (existing # rest) st =
     similar_loop heap new_tag name_size threshold (Suc k) rest
       (similar_step (heap k) new_tag name_size threshold existing st)"

definition find_similar_tags :: "(nat \<Rightarrow> alloc) \<Rightarrow> store \<Rightarrow> string \<Rightarrow> nat \<Rightarrow> similar" where
  "find_similar_tags heap db new_tag name_size =
     (let threshold = get_int_setting db ''similarity_threshold'' DEFAULT_SIMILARITY_THRESHOLD;
          start = \<lparr>found_count = 0, best_distance = threshold + 1, similar_name = [],
                   similar_distance = None, is_substring = 0\<rparr>
      in case t_tags db of
           None \<Rightarrow> start
         | Some rows \<Rightarrow> similar_loop heap new_tag name_size threshold 0 (map snd rows) start)"

text \<open>
  What \<^verbatim>\<open>get_or_create_tag_with_check\<close> writes to the console, in order, and its outcome:
  the returned id (\<open>- 1\<close> on failure or cancellation), the store, and the input left.
  \<open>create_new_tag\<close> is the end of the function, from its comment \<^verbatim>\<open>Create new tag\<close> on.
\<close>

datatype event =
    Warn_substring string
  | Warn_distance string "int option"
  | Prompt_create string
  | Prompt_use string
  | Cancelled
  | Created_tag string

record outcome =
  result :: int
  db_after :: store
  input_after :: string
  console :: "event list"

definition create_new_tag :: "store \<Rightarrow> string \<Rightarrow> string \<Rightarrow> event list \<Rightarrow> outcome" where
  "create_new_tag db inp tag_name out =
     (case create_tag db tag_name of (tag_id, db') \<Rightarrow>
        \<lparr>result = tag_id, db_after = db', input_after = inp,
         console = out @ (if tag_id \<ge> 0 then [Created_tag tag_name] else [])\<rparr>)"

definition get_or_create_tag_with_check :: "(nat \<Rightarrow> alloc) \<Rightarrow> store \<Rightarrow> string \<Rightarrow> string \<Rightarrow> outcome" where
  "get_or_create_tag_with_check heap db inp tag_name =
     (let tag_id = get_tag_id db tag_name in
      if tag_id \<ge> 0 then \<lparr>result = tag_id, db_after = db, input_after = inp, console = []\<rparr>
      else
        let sim = find_similar_tags heap db tag_name MAX_TAG_LENGTH in
        if found_count sim > 0 then
          let warn = (if is_substring sim \<noteq> 0 then Warn_substring (similar_name sim)
                      else Warn_distance (similar_name sim) (similar_distance sim))
          in case get_confirmation inp of (create_anyway, inp1) \<Rightarrow>
               if \<not> create_anyway then
                 (case get_confirmation inp1 of (use_existing, inp2) \<Rightarrow>
                    if use_existing then
                      \<lparr>result = get_tag_id db (similar_name sim), db_after = db, input_after = inp2,
                       console = [warn, Prompt_create tag_name, Prompt_use (similar_name sim)]\<rparr>
                    else
                      \<lparr>result = - 1, db_after = db, input_after = inp2,
                       console = [warn, Prompt_create tag_name, Prompt_use (similar_name sim),
                                  Cancelled]\<rparr>)
               else create_new_tag db inp1 tag_name [warn, Prompt_create tag_name]
        else create_new_tag db inp tag_name [])"

section \<open>Fuzzy search\<close>

text \<open>
  Both fuzzy queries have the shape
  \<^verbatim>\<open>SELECT ..., levenshtein(name, ?) as dist FROM t WHERE dist <= ? ORDER BY dist, name LIMIT ?\<close>:
  every row gets its distance to the query (the \<open>k\<close>-th row's call taking its blocks from
  \<open>heap k\<close>), the rows over the bound are dropped, the rest is sorted by distance and then
  by \<^verbatim>\<open>name\<close> in the column's collation, which is the default one (bytes), and cut at
  the limit. \<open>None\<close> is the failure to prepare the statement. The sort key is the pair
  (distance, name): pairs are ordered lexicographically, and so are strings, byte by byte
  with a proper prefix first, which is the engine's \<^verbatim>\<open>BINARY\<close> order.
\<close>

definition with_dist :: "(nat \<Rightarrow> alloc) \<Rightarrow> string \<Rightarrow> ('a \<Rightarrow> string) \<Rightarrow> 'a list \<Rightarrow> ('a \<times> int) list" where
  "with_dist heap query name_of rows =
     map (\<lambda>(k, r). (r, levenshtein (fst (heap k)) (snd (heap k)) (name_of r) query))
       (enumerate 0 rows)"

definition fuzzy_select ::
    "(nat \<Rightarrow> alloc) \<Rightarrow> string \<Rightarrow> int \<Rightarrow> int \<Rightarrow> ('a \<Rightarrow> string) \<Rightarrow> 'a list \<Rightarrow> ('a \<times> int) list" where
  "fuzzy_select heap query max_distance max_results name_of rows =
     sql_limit max_results
       (sort_key (\<lambda>(r, dist). (dist, name_of r))
          (filter (\<lambda>(r, dist). dist \<le> max_distance) (with_dist heap query name_of rows)))"

definition search_paths_fuzzy ::
    "(nat \<Rightarrow> alloc) \<Rightarrow> store \<Rightarrow> string \<Rightarrow> int \<Rightarrow> (path_row \<times> int) list option" where
  "search_paths_fuzzy heap db query max_distance =
     (let max_results = get_int_setting db ''max_results'' DEFAULT_MAX_RESULTS;
          max_distance =
            (if max_distance < 0
             then get_int_setting db ''fuzzy_default_distance'' DEFAULT_FUZZY_DISTANCE
             else max_distance)
      in case t_paths db of
           None \<Rightarrow> None
         | Some rows \<Rightarrow> Some (fuzzy_select heap query max_distance max_results p_name rows))"

text \<open>The third query of \<^verbatim>\<open>search_tags_fuzzy\<close>, its "Fuzzy Match" section.\<close>

definition search_tags_fuzzy ::
    "(nat \<Rightarrow> alloc) \<Rightarrow> store \<Rightarrow> string \<Rightarrow> ((nat \<times> string) \<times> int) list option" where
  "search_tags_fuzzy heap db query =
     (let max_results = get_int_setting db ''max_results'' DEFAULT_MAX_RESULTS;
          fuzzy_dist = get_int_setting db ''fuzzy_default_distance'' DEFAULT_FUZZY_DISTANCE
      in case t_tags db of
           None \<Rightarrow> None
         | Some rows \<Rightarrow> Some (fuzzy_select heap query fuzzy_dist max_results snd rows))"

section \<open>Structured search\<close>

text \<open>
  A filter is a C string or NULL (\<open>None\<close>); it is used when
  \<^verbatim>\<open>category && strlen(category) > 0\<close>. The statement is assembled from the filters in
  use: the joins, the conditions of the \<^verbatim>\<open>WHERE\<close> clause, then
  \<^verbatim>\<open>ORDER BY p.path LIMIT ?\<close> over \<^verbatim>\<open>SELECT DISTINCT p.path, p.is_directory, p.size\<close>.
\<close>

definition has_filter :: "string option \<Rightarrow> bool" where
  "has_filter f = (case f of None \<Rightarrow> False | Some s \<Rightarrow> length s > 0)"

definition join_names ::
    "bool \<Rightarrow> (nat \<times> nat) list \<Rightarrow> (nat \<times> string) list \<Rightarrow> ('r \<Rightarrow> nat) \<Rightarrow> 'r list \<Rightarrow>
     ('r \<times> string option) list" where
  "join_names used links names path_id_of rows =
     (if used then
        concat (map (\<lambda>row.
          concat (map (\<lambda>link.
            if fst link = path_id_of row
            then map (\<lambda>n. (row, Some (snd n))) (filter (\<lambda>n. fst n = snd link) names)
            else []) links)) rows)
      else map (\<lambda>row. (row, None)) rows)"

definition where_clause ::
    "string option \<Rightarrow> string option \<Rightarrow> string option \<Rightarrow>
     (path_row \<times> string option) \<times> string option \<Rightarrow> bool" where
  "where_clause category tag name row =
     (case row of ((p, c_name), t_name) \<Rightarrow>
        (if has_filter category then nocase_eq (the c_name) (the category) else True) \<and>
        (if has_filter tag then nocase_eq (the t_name) (the tag) else True) \<and>
        (if has_filter name then like_match (''%'' @ the name @ ''%'') (p_name p) else True))"

definition structured_search ::
    "store \<Rightarrow> string option \<Rightarrow> string option \<Rightarrow> string option \<Rightarrow>
     (string \<times> int \<times> int option) list option" where
  "structured_search db category tag name =
     (let max_results = get_int_setting db ''max_results'' DEFAULT_MAX_RESULTS in
      case t_paths db of
        None \<Rightarrow> None
      | Some ps \<Rightarrow>
          if has_filter category \<and> (t_path_categories db = None \<or> t_categories db = None) then None
          else if has_filter tag \<and> (t_path_tags db = None \<or> t_tags db = None) then None
          else
            let joined =
                  join_names (has_filter tag)
                    (case t_path_tags db of None \<Rightarrow> [] | Some r \<Rightarrow> r)
                    (case t_tags db of None \<Rightarrow> [] | Some r \<Rightarrow> r)
                    (\<lambda>row. p_id (fst row))
                    (join_names (has_filter category)
                       (case t_path_categories db of None \<Rightarrow> [] | Some r \<Rightarrow> r)
                       (case t_categories db of None \<Rightarrow> [] | Some r \<Rightarrow> r)
                       p_id ps);
                selected = filter (where_clause category tag name) joined;
                columns = map (\<lambda>row. case row of ((p, _), _) \<Rightarrow>
                                 (p_path p, p_is_directory p, p_size p)) selected
            in Some (sql_limit max_results (sort_key fst (remdups columns))))"

text \<open>
  The specification's words for structured search: a path satisfies the filters when, for
  each filter in use, it is linked to a category (a tag) of that name, compared without
  regard to case, and its name contains the name filter, again without regard to case.
\<close>

definition in_named :: "(nat \<times> nat) list \<Rightarrow> (nat \<times> string) list \<Rightarrow> nat \<Rightarrow> string \<Rightarrow> bool" where
  "in_named links names pid wanted =
     (\<exists>link \<in> set links. fst link = pid \<and>
        (\<exists>n \<in> set names. fst n = snd link \<and> nocase_eq (snd n) wanted))"

definition is_ascii :: "string \<Rightarrow> bool" where
  "is_ascii s = list_all (\<lambda>c. (of_char c :: nat) < 128) s"

definition contains_nocase :: "string \<Rightarrow> string \<Rightarrow> bool" where
  "contains_nocase s sub = (\<exists>u v. str_to_lower s = u @ str_to_lower sub @ v)"

definition satisfies :: "store \<Rightarrow> string option \<Rightarrow> string option \<Rightarrow> string option \<Rightarrow> path_row \<Rightarrow> bool" where
  "satisfies db category tag name p =
     ((has_filter category \<longrightarrow>
         in_named (the (t_path_categories db)) (the (t_categories db)) (p_id p) (the category)) \<and>
      (has_filter tag \<longrightarrow>
         in_named (the (t_path_tags db)) (the (t_tags db)) (p_id p) (the tag)) \<and>
      (has_filter name \<longrightarrow> contains_nocase (p_name p) (the name)))"

section \<open>Sample inputs\<close>

text \<open>A heap on which every allocation succeeds, the blocks holding zeros.\<close>

definition calm_heap :: "nat \<Rightarrow> alloc" where
  "calm_heap k = (Some (\<lambda>i. 0), Some (\<lambda>i. 0))"

definition all_ok :: init_env where
  "all_ok = \<lparr>dir_exists = True, open_ok = True, register_ok = True, exec_ok = True\<rparr>"

definition sample_path :: "nat \<Rightarrow> string \<Rightarrow> path_row" where
  "sample_path i n =
     \<lparr>p_id = i, p_path = ''/'' @ n, p_name = n, p_is_directory = 0, p_size = Some 3,
      p_parent_path = None\<rparr>"

text \<open>A freshly initialised store: the schema, the default settings and categories.\<close>

definition fresh_store :: store where
  "fresh_store = insert_default_categories (insert_default_settings (snd (create_schema_v1 True empty_store)))"

text \<open>
  A store with two tags, one path and the setting \<^verbatim>\<open>max_results\<close> at \<open>- 1\<close> (as the
  command \<^verbatim>\<open>set max_results -1\<close> leaves it), and the order by distance and folded name.
\<close>

definition unlimited_store :: store where
  "unlimited_store =
     snd (set_string_setting
            (fresh_store\<lparr>t_paths := Some [sample_path 1 ''abc''],
                         t_tags := Some [(1, ''a''), (2, ''B'')]\<rparr>)
            ''max_results'' ''-1'')"

definition sorted_nocase :: "('a \<Rightarrow> string) \<Rightarrow> ('a \<times> int) list \<Rightarrow> bool" where
  "sorted_nocase name_of res = sorted (map (\<lambda>(row, dist). (dist, str_to_lower (name_of row))) res)"

text \<open>A store whose settings say schema version 2, and a legacy store: paths and nothing else.\<close>

definition version2_store :: store where
  "version2_store = snd (set_int_setting fresh_store ''schema_version'' 2)"

definition legacy_store :: store where
  "legacy_store = empty_store\<lparr>t_paths := Some [sample_path 1 ''a'']\<rparr>"

text \<open>
  A store with the tags \<^verbatim>\<open>abc\<close> and \<^verbatim>\<open>abxd\<close> and a path named \<^verbatim>\<open>abc\<close>, and one with
  that path only.
\<close>

definition abc_store :: store where
  "abc_store =
     fresh_store\<lparr>t_paths := Some [sample_path 1 ''abc''],
                 t_tags := Some [(1, ''abc''), (2, ''abxd'')]\<rparr>"

text \<open>The store \<open>abc_store\<close> with its two tags scanned in the other order.\<close>

definition abxd_first_store :: store where
  "abxd_first_store = abc_store\<lparr>t_tags := Some [(2, ''abxd''), (1, ''abc'')]\<rparr>"

definition one_path_store :: store where
  "one_path_store = fresh_store\<lparr>t_paths := Some [sample_path 1 ''abc'']\<rparr>"

text \<open>A store with two paths, the first of them in the category \<^verbatim>\<open>Games\<close>.\<close>

definition games_store :: store where
  "games_store =
     fresh_store\<lparr>t_paths := Some [sample_path 1 ''Zelda'', sample_path 2 ''abc''],
                 t_path_categories := Some [(1, 1)]\<rparr>"

section \<open>Levenshtein distance: proofs\<close>

lemma ed_Nil2: "ed xs [] = length xs"
  by (cases xs) auto

lemma ed_refl: "ed xs xs = 0"
  by (induction xs) auto

lemma ed_del_head: "ed (c # xs) ys \<le> ed xs ys + 1"
  by (cases ys) (auto simp: ed_Nil2)

lemma ed_ins_head: "ed xs (c # ys) \<le> ed xs ys + 1"
  by (cases xs) auto

lemma ed_drop_head: "ed xs ys \<le> ed (c # xs) ys + 1"
proof (induction ys)
  case Nil
  then show ?case by (simp add: ed_Nil2)
next
  case (Cons y ys)
  have "ed xs (y # ys) \<le> ed xs ys + 1" by (rule ed_ins_head)
  with Cons show ?case by auto
qed

lemma ed_subst_head: "ed (c # xs) ys \<le> ed (d # xs) ys + 1"
proof (induction ys)
  case Nil
  then show ?case by simp
next
  case (Cons y ys)
  then show ?case by auto
qed

lemma ed_cons_ctx:
  assumes "\<And>ys. ed xs ys \<le> ed xs' ys + 1"
  shows "ed (c # xs) ys \<le> ed (c # xs') ys + 1"
proof (induction ys)
  case Nil
  from assms[of "[]"] show ?case by (simp add: ed_Nil2)
next
  case (Cons y ys)
  from assms[of ys] assms[of "y # ys"] Cons show ?case by auto
qed

lemma ed_step: "edit_step xs xs' \<Longrightarrow> ed xs ys \<le> ed xs' ys + 1"
proof (induction arbitrary: ys rule: edit_step.induct)
  case (insertion u v c)
  show ?case
  proof (induction u arbitrary: ys)
    case Nil
    show ?case using ed_drop_head[of v ys c] by simp
  next
    case (Cons a u)
    show ?case using ed_cons_ctx[of "u @ v" "u @ c # v" a ys, OF Cons] by simp
  qed
next
  case (deletion u c v)
  show ?case
  proof (induction u arbitrary: ys)
    case Nil
    show ?case using ed_del_head[of c v ys] by simp
  next
    case (Cons a u)
    show ?case using ed_cons_ctx[of "u @ c # v" "u @ v" a ys, OF Cons] by simp
  qed
next
  case (substitution c d u v)
  show ?case
  proof (induction u arbitrary: ys)
    case Nil
    show ?case using ed_subst_head[of c v ys d] by simp
  next
    case (Cons a u)
    show ?case using ed_cons_ctx[of "u @ c # v" "u @ d # v" a ys, OF Cons] by simp
  qed
qed

lemma ed_lower: "(edit_step ^^ n) xs ys \<Longrightarrow> ed xs ys \<le> n"
proof (induction n arbitrary: xs)
  case 0
  then show ?case by (simp add: ed_refl)
next
  case (Suc n)
  from Suc.prems obtain z where z: "edit_step xs z" "(edit_step ^^ n) z ys"
    by (rule relpowp_Suc_E2)
  from Suc.IH[OF z(2)] ed_step[OF z(1), of ys] show ?case by simp
qed

lemma edit_step_Cons: "edit_step xs ys \<Longrightarrow> edit_step (c # xs) (c # ys)"
proof (induction rule: edit_step.induct)
  case (insertion u v d)
  show ?case using edit_step.insertion[of "c # u" v d] by simp
next
  case (deletion u d v)
  show ?case using edit_step.deletion[of "c # u" d v] by simp
next
  case (substitution a b u v)
  then show ?case using edit_step.substitution[of a b "c # u" v] by simp
qed

lemma edits_Cons: "(edit_step ^^ n) xs ys \<Longrightarrow> (edit_step ^^ n) (c # xs) (c # ys)"
proof (induction n arbitrary: ys)
  case 0
  then show ?case by simp
next
  case (Suc n)
  then obtain z where z: "(edit_step ^^ n) xs z" "edit_step z ys"
    by auto
  from Suc.IH[OF z(1)] edit_step_Cons[OF z(2)] show ?case by auto
qed

lemma edits_ins_head: "(edit_step ^^ n) xs ys \<Longrightarrow> (edit_step ^^ Suc n) xs (c # ys)"
  using edit_step.insertion[of "[]" ys c] by auto

lemma edits_del_head:
  assumes "(edit_step ^^ n) xs ys"
  shows "(edit_step ^^ Suc n) (c # xs) ys"
proof (rule relpowp_Suc_I2)
  show "edit_step (c # xs) xs" using edit_step.deletion[of "[]" c xs] by simp
qed (rule assms)

lemma edits_sub_head:
  assumes "c \<noteq> d" and "(edit_step ^^ n) xs ys"
  shows "(edit_step ^^ Suc n) (c # xs) (d # ys)"
proof (rule relpowp_Suc_I2)
  show "edit_step (c # xs) (d # xs)" using edit_step.substitution[OF assms(1), of "[]" xs] by simp
  show "(edit_step ^^ n) (d # xs) (d # ys)" by (rule edits_Cons[OF assms(2)])
qed

lemma min_min_cases: "min (min a b) c = a \<or> min (min a b) c = b \<or> min (min a b) c = (c::nat)"
  by (auto simp: min_def)

lemma ed_upper: "(edit_step ^^ ed xs ys) xs ys"
proof (induction xs ys rule: ed.induct)
  case (1 ys)
  show ?case
  proof (induction ys)
    case Nil
    show ?case by simp
  next
    case (Cons y ys)
    from edits_ins_head[OF Cons, of y] show ?case by simp
  qed
next
  case (2 x xs)
  have "(edit_step ^^ length zs) zs []" for zs :: string
  proof (induction zs)
    case Nil
    show ?case by simp
  next
    case (Cons z zs)
    from edits_del_head[OF Cons, of z] show ?case by simp
  qed
  from this[of "x # xs"] show ?case by simp
next
  case (3 x xs y ys)
  let ?a = "ed xs (y # ys) + 1" and ?b = "ed (x # xs) ys + 1"
  let ?c = "ed xs ys + (if x = y then 0 else 1)"
  have e: "ed (x # xs) (y # ys) = min (min ?a ?b) ?c" by simp
  consider "ed (x # xs) (y # ys) = ?a" | "ed (x # xs) (y # ys) = ?b" | "ed (x # xs) (y # ys) = ?c"
    unfolding e using min_min_cases[of ?a ?b ?c] by blast
  then show ?case
  proof cases
    case 1
    then show ?thesis using edits_del_head[OF 3(1), of x] by simp
  next
    case 2
    then show ?thesis using edits_ins_head[OF 3(2), of y] by simp
  next
    case 3
    show ?thesis
    proof (cases "x = y")
      case True
      then show ?thesis using 3 edits_Cons[OF "3.IH"(3), of y] by simp
    next
      case False
      then show ?thesis using 3 edits_sub_head[OF False "3.IH"(3)] by simp
    qed
  qed
qed

lemma edit_step_sym: "edit_step xs ys \<Longrightarrow> edit_step ys xs"
  by (induction rule: edit_step.induct) (auto intro: edit_step.intros)

lemma edits_sym: "(edit_step ^^ n) xs ys \<Longrightarrow> (edit_step ^^ n) ys xs"
proof (induction n arbitrary: ys)
  case 0
  then show ?case by simp
next
  case (Suc n)
  then obtain z where z: "(edit_step ^^ n) xs z" "edit_step z ys" by auto
  show ?case
    by (rule relpowp_Suc_I2[OF edit_step_sym[OF z(2)] Suc.IH[OF z(1)]])
qed

lemma edit_step_rev: "edit_step xs ys \<Longrightarrow> edit_step (rev xs) (rev ys)"
proof (induction rule: edit_step.induct)
  case (insertion u v c)
  show ?case using edit_step.insertion[of "rev v" "rev u" c] by simp
next
  case (deletion u c v)
  show ?case using edit_step.deletion[of "rev v" c "rev u"] by simp
next
  case (substitution c d u v)
  then show ?case using edit_step.substitution[of c d "rev v" "rev u"] by simp
qed

lemma edits_rev: "(edit_step ^^ n) xs ys \<Longrightarrow> (edit_step ^^ n) (rev xs) (rev ys)"
proof (induction n arbitrary: ys)
  case 0
  then show ?case by simp
next
  case (Suc n)
  then obtain z where z: "(edit_step ^^ n) xs z" "edit_step z ys" by auto
  from Suc.IH[OF z(1)] edit_step_rev[OF z(2)] show ?case by auto
qed

lemma ed_edit_distance: "ed xs ys = edit_distance xs ys"
  unfolding edit_distance_def
  by (rule Least_equality[symmetric]) (auto intro: ed_upper ed_lower)

lemma ed_sym: "ed xs ys = ed ys xs"
proof (rule antisym)
  show "ed xs ys \<le> ed ys xs" by (rule ed_lower[OF edits_sym[OF ed_upper]])
  show "ed ys xs \<le> ed xs ys" by (rule ed_lower[OF edits_sym[OF ed_upper]])
qed

lemma ed_rev: "ed (rev xs) (rev ys) = ed xs ys"
proof (rule antisym)
  show "ed (rev xs) (rev ys) \<le> ed xs ys" by (rule ed_lower[OF edits_rev[OF ed_upper]])
  have "(edit_step ^^ ed (rev xs) (rev ys)) (rev (rev xs)) (rev (rev ys))"
    by (rule edits_rev[OF ed_upper])
  then show "ed xs ys \<le> ed (rev xs) (rev ys)" using ed_lower by simp
qed

lemma cell_0_left: "j \<le> length s2 \<Longrightarrow> cell s1 s2 0 j = j"
  by (simp add: cell_def)

lemma cell_0_right: "i \<le> length s1 \<Longrightarrow> cell s1 s2 i 0 = i"
  by (simp add: cell_def ed_Nil2)

lemma cell_Suc:
  assumes "i < length s1" "j < length s2"
  shows "cell s1 s2 (Suc i) (Suc j) =
     min (min (cell s1 s2 i (Suc j) + 1) (cell s1 s2 (Suc i) j + 1))
         (cell s1 s2 i j + (if tolower (s1 ! i) = tolower (s2 ! j) then 0 else 1))"
  using assms by (simp add: cell_def take_Suc_conv_app_nth)

lemma min3_min: "min3 a b c = min (min a b) c"
  by (auto simp: min3_def Let_def min_def)

lemma lev_init_spec:
  assumes "length prev = Suc len1" "i \<le> Suc len1" "\<forall>k<i. prev ! k = int k"
  shows "length (lev_init prev i len1) = Suc len1 \<and> (\<forall>k\<le>len1. lev_init prev i len1 ! k = int k)"
  using assms
proof (induction prev i len1 rule: lev_init.induct)
  case (1 prev i len1)
  show ?case
  proof (cases "i \<le> len1")
    case True
    have "length (prev[i := int i]) = Suc len1" using 1 by simp
    moreover have "i + 1 \<le> Suc len1" using True by simp
    moreover have "\<forall>k<i + 1. prev[i := int i] ! k = int k"
    proof (intro allI impI)
      fix k assume "k < i + 1"
      then consider "k < i" | "k = i" by linarith
      then show "prev[i := int i] ! k = int k"
      proof cases
        case 1
        then show ?thesis using \<open>\<forall>k<i. prev ! k = int k\<close> by simp
      next
        case 2
        have "i < length prev" using True \<open>length prev = Suc len1\<close> by simp
        then show ?thesis using 2 by simp
      qed
    qed
    ultimately have "length (lev_init (prev[i := int i]) (i + 1) len1) = Suc len1 \<and>
        (\<forall>k\<le>len1. lev_init (prev[i := int i]) (i + 1) len1 ! k = int k)"
      using 1(1)[OF True] by blast
    moreover have "lev_init prev i len1 = lev_init (prev[i := int i]) (i + 1) len1"
      using True by (subst lev_init.simps) simp
    ultimately show ?thesis by simp
  next
    case False
    with 1 have "i = Suc len1" by simp
    have "lev_init prev i len1 = prev"
      using False by (subst lev_init.simps) simp
    with 1 \<open>i = Suc len1\<close> show ?thesis by (simp add: less_Suc_eq_le)
  qed
qed

lemma min3_cell:
  "min3 (int a + 1) (int b + 1) (int c + (if P then 0 else 1)) =
     int (min (min (b + 1) (a + 1)) (c + (if P then 0 else 1)))"
  by (simp add: min3_min min_def)

lemma lev_inner_spec:
  assumes "length prev = Suc (length s1)"
    and "j < length s2"
    and "\<forall>k\<le>length s1. prev ! k = int (cell s1 s2 k j)"
  shows "length cur = Suc (length s1) \<Longrightarrow> 1 \<le> i \<Longrightarrow> i \<le> Suc (length s1) \<Longrightarrow>
         \<forall>k<i. cur ! k = int (cell s1 s2 k (Suc j)) \<Longrightarrow>
         length (lev_inner s1 (s2 ! j) prev cur i) = Suc (length s1) \<and>
         (\<forall>k\<le>length s1. lev_inner s1 (s2 ! j) prev cur i ! k = int (cell s1 s2 k (Suc j)))"
proof (induction "Suc (length s1) - i" arbitrary: i cur)
  case 0
  then have ieq: "i = Suc (length s1)" by simp
  have r: "lev_inner s1 (s2 ! j) prev cur i = cur"
    using ieq by (subst lev_inner.simps) simp
  show ?case unfolding r using 0(2) 0(5) ieq by (simp add: less_Suc_eq_le)
next
  case (Suc n)
  then have True: "i \<le> length s1" by simp
  obtain i' where i': "i = Suc i'" using \<open>1 \<le> i\<close> by (cases i) auto
  have i'lt: "i' < length s1" using True i' by simp
  define v where "v = min3 (prev ! i + 1) (cur ! (i - 1) + 1)
      (prev ! (i - 1) + (if tolower (s1 ! (i - 1)) = tolower (s2 ! j) then 0 else 1))"
  have p1: "prev ! Suc i' = int (cell s1 s2 (Suc i') j)" using assms(3) True i' by simp
  have p2: "prev ! i' = int (cell s1 s2 i' j)" using assms(3) True i' by simp
  have c1: "cur ! i' = int (cell s1 s2 i' (Suc j))" using Suc.prems(4) i' by simp
  have "v = min3 (int (cell s1 s2 (Suc i') j) + 1) (int (cell s1 s2 i' (Suc j)) + 1)
      (int (cell s1 s2 i' j) + (if tolower (s1 ! i') = tolower (s2 ! j) then 0 else 1))"
    unfolding v_def i' by (simp only: p1 p2 c1 diff_Suc_1)
  also have "\<dots> = int (cell s1 s2 (Suc i') (Suc j))"
    unfolding min3_cell cell_Suc[OF i'lt assms(2)] ..
  finally have v: "v = int (cell s1 s2 i (Suc j))" unfolding i' .
  have step: "lev_inner s1 (s2 ! j) prev cur i = lev_inner s1 (s2 ! j) prev (cur[i := v]) (i + 1)"
    using True by (subst lev_inner.simps) (simp add: v_def Let_def)
  have upd: "\<forall>k<i + 1. cur[i := v] ! k = int (cell s1 s2 k (Suc j))"
  proof (intro allI impI)
    fix k assume "k < i + 1"
    then consider "k < i" | "k = i" by linarith
    then show "cur[i := v] ! k = int (cell s1 s2 k (Suc j))"
    proof cases
      case 1
      then show ?thesis using Suc.prems(4) by simp
    next
      case 2
      have "i < length cur" using True Suc.prems(1) by simp
      then show ?thesis using 2 v by simp
    qed
  qed
  have "length (lev_inner s1 (s2 ! j) prev (cur[i := v]) (i + 1)) = Suc (length s1) \<and>
       (\<forall>k\<le>length s1. lev_inner s1 (s2 ! j) prev (cur[i := v]) (i + 1) ! k = int (cell s1 s2 k (Suc j)))"
  proof (rule Suc.hyps(1))
    show "n = Suc (length s1) - (i + 1)" using Suc.hyps(2) by simp
    show "length (cur[i := v]) = Suc (length s1)" using Suc.prems(1) by simp
    show "1 \<le> i + 1" by simp
    show "i + 1 \<le> Suc (length s1)" using True by simp
    show "\<forall>k<i + 1. cur[i := v] ! k = int (cell s1 s2 k (Suc j))" by (rule upd)
  qed
  then show ?case unfolding step .
qed

lemma lev_outer_spec:
  "length prev = Suc (length s1) \<Longrightarrow> length cur = Suc (length s1) \<Longrightarrow>
   1 \<le> j \<Longrightarrow> j \<le> Suc (length s2) \<Longrightarrow>
   \<forall>k\<le>length s1. prev ! k = int (cell s1 s2 k (j - 1)) \<Longrightarrow>
   \<forall>k\<le>length s1. fst (lev_outer s1 s2 prev cur j) ! k = int (cell s1 s2 k (length s2))"
proof (induction "Suc (length s2) - j" arbitrary: j prev cur)
  case 0
  then have jeq: "j = Suc (length s2)" by simp
  have r: "lev_outer s1 s2 prev cur j = (prev, cur)"
    using jeq by (subst lev_outer.simps) simp
  show ?case unfolding r using 0(6) jeq by simp
next
  case (Suc n)
  then have True: "j \<le> length s2" by simp
  obtain j' where j': "j = Suc j'" using \<open>1 \<le> j\<close> by (cases j) auto
  have j'lt: "j' < length s2" using True j' by simp
  define c0 where "c0 = cur[0 := int j]"
  define c1 where "c1 = lev_inner s1 (s2 ! (j - 1)) prev c0 1"
  have step: "lev_outer s1 s2 prev cur j = lev_outer s1 s2 c1 prev (j + 1)"
    using True by (subst lev_outer.simps) (simp add: c0_def c1_def Let_def)
  have c0: "\<forall>k<1. c0 ! k = int (cell s1 s2 k (Suc j'))"
    using Suc.prems(2) j' j'lt by (simp add: c0_def cell_0_left)
  have "length (lev_inner s1 (s2 ! j') prev c0 1) = Suc (length s1) \<and>
       (\<forall>k\<le>length s1. lev_inner s1 (s2 ! j') prev c0 1 ! k = int (cell s1 s2 k (Suc j')))"
  proof (rule lev_inner_spec)
    show "length prev = Suc (length s1)" by fact
    show "length c0 = Suc (length s1)" using Suc.prems(2) by (simp add: c0_def)
    show "j' < length s2" by fact
    show "\<forall>k\<le>length s1. prev ! k = int (cell s1 s2 k j')" using Suc.prems(5) j' by simp
    show "(1::nat) \<le> 1" by simp
    show "1 \<le> Suc (length s1)" by simp
    show "\<forall>k<1. c0 ! k = int (cell s1 s2 k (Suc j'))" by (rule c0)
  qed
  then have c1: "length c1 = Suc (length s1)" "\<forall>k\<le>length s1. c1 ! k = int (cell s1 s2 k (j + 1 - 1))"
    unfolding c1_def j' by simp_all
  have "\<forall>k\<le>length s1. fst (lev_outer s1 s2 c1 prev (j + 1)) ! k = int (cell s1 s2 k (length s2))"
  proof (rule Suc.hyps(1))
    show "n = Suc (length s2) - (j + 1)" using Suc.hyps(2) by simp
    show "length c1 = Suc (length s1)" by (rule c1(1))
    show "length prev = Suc (length s1)" by fact
    show "1 \<le> j + 1" by simp
    show "j + 1 \<le> Suc (length s2)" using True by simp
    show "\<forall>k\<le>length s1. c1 ! k = int (cell s1 s2 k (j + 1 - 1))" by (rule c1(2))
  qed
  then show ?case unfolding step .
qed

lemma lev_core:
  assumes "s1 \<noteq> []" "s2 \<noteq> []"
  shows "fst (lev_outer s1 s2 (lev_init (map g1 [0..<length s1 + 1]) 0 (length s1))
                (map g2 [0..<length s1 + 1]) 1) ! length s1
         = int (ed (map tolower s1) (map tolower s2))"
proof -
  let ?p = "lev_init (map g1 [0..<length s1 + 1]) 0 (length s1)"
  have p: "length ?p = Suc (length s1) \<and> (\<forall>k\<le>length s1. ?p ! k = int k)"
    by (rule lev_init_spec) simp_all
  have "\<forall>k\<le>length s1. fst (lev_outer s1 s2 ?p (map g2 [0..<length s1 + 1]) 1) ! k
          = int (cell s1 s2 k (length s2))"
  proof (rule lev_outer_spec)
    show "length ?p = Suc (length s1)" using p by simp
    show "length (map g2 [0..<length s1 + 1]) = Suc (length s1)" by simp
    show "(1::nat) \<le> 1" by simp
    show "1 \<le> Suc (length s2)" by simp
    show "\<forall>k\<le>length s1. ?p ! k = int (cell s1 s2 k (1 - 1))"
      using p by (simp add: cell_0_right)
  qed
  then have "fst (lev_outer s1 s2 ?p (map g2 [0..<length s1 + 1]) 1) ! length s1
          = int (cell s1 s2 (length s1) (length s2))" by simp
  also have "cell s1 s2 (length s1) (length s2) = ed (map tolower s1) (map tolower s2)"
    by (simp add: cell_def ed_rev)
  finally show ?thesis .
qed

lemma levenshtein_ed:
  "levenshtein (Some g1) (Some g2) s1 s2 = int (ed (map tolower s1) (map tolower s2))"
proof (cases "s1 = [] \<or> s2 = []")
  case True
  then show ?thesis by (auto simp: levenshtein_def ed_Nil2)
next
  case False
  then have ne: "s1 \<noteq> []" "s2 \<noteq> []" by simp_all
  show ?thesis
  proof (cases "length s1 > length s2")
    case True
    have "levenshtein (Some g1) (Some g2) s1 s2 =
        fst (lev_outer s2 s1 (lev_init (map g1 [0..<length s2 + 1]) 0 (length s2))
                (map g2 [0..<length s2 + 1]) 1) ! length s2"
      using ne True by (simp add: levenshtein_def Let_def split: prod.splits)
    also have "\<dots> = int (ed (map tolower s2) (map tolower s1))"
      by (rule lev_core[OF ne(2) ne(1)])
    finally show ?thesis by (simp add: ed_sym)
  next
    case False
    have "levenshtein (Some g1) (Some g2) s1 s2 =
        fst (lev_outer s1 s2 (lev_init (map g1 [0..<length s1 + 1]) 0 (length s1))
                (map g2 [0..<length s1 + 1]) 1) ! length s1"
      using ne False by (simp add: levenshtein_def Let_def split: prod.splits)
    also have "\<dots> = int (ed (map tolower s1) (map tolower s2))"
      by (rule lev_core[OF ne])
    finally show ?thesis .
  qed
qed

text \<open>
  No cell of the matrix exceeds the longer of the two lengths, so every sum the loops form is
  at most one more: for strings shorter than \<open>2^31 - 1\<close> bytes the C arithmetic never
  leaves the range of \<^verbatim>\<open>int\<close>.
\<close>

lemma ed_le_max: "ed xs ys \<le> max (length xs) (length ys)"
  by (induction xs ys rule: ed.induct) auto

lemma cell_le_max: "cell s1 s2 i j \<le> max i j"
proof -
  have "cell s1 s2 i j \<le> max (min (length s1) i) (min (length s2) j)"
    unfolding cell_def using ed_le_max[of "rev (take i (map tolower s1))" "rev (take j (map tolower s2))"]
    by simp
  then show ?thesis by simp
qed

lemma levenshtein_le_max:
  "levenshtein (Some g_prev) (Some g_cur) a b \<le> int (max (length a) (length b))"
  using ed_le_max[of "map tolower a" "map tolower b"] by (simp add: levenshtein_ed)

section \<open>The searches and the store: proofs\<close>

lemma sql_limit_subset: "set (sql_limit n xs) \<subseteq> set xs"
  by (simp add: sql_limit_def set_take_subset)

lemma sorted_map_take: "sorted (map f xs) \<Longrightarrow> sorted (map f (take n xs))"
proof (induction xs arbitrary: n)
  case Nil
  then show ?case by simp
next
  case (Cons x xs)
  show ?case
  proof (cases n)
    case 0
    then show ?thesis by simp
  next
    case (Suc m)
    have "set (take m xs) \<subseteq> set xs" by (rule set_take_subset)
    with Cons Suc show ?thesis by auto
  qed
qed

lemma sql_limit_sorted: "sorted (map f xs) \<Longrightarrow> sorted (map f (sql_limit n xs))"
  by (simp add: sql_limit_def sorted_map_take)

lemma sql_limit_length: "0 \<le> n \<Longrightarrow> int (length (sql_limit n xs)) \<le> n"
  by (simp add: sql_limit_def)

lemma with_dist_elem:
  assumes "(r, d) \<in> set (with_dist heap q name_of rows)"
  shows "r \<in> set rows \<and> (\<exists>k. d = levenshtein (fst (heap k)) (snd (heap k)) (name_of r) q)"
proof -
  from assms obtain k r' where kr: "(k, r') \<in> set (enumerate 0 rows)"
      and eq: "(r, d) = (r', levenshtein (fst (heap k)) (snd (heap k)) (name_of r') q)"
    by (auto simp: with_dist_def)
  from kr have "r' \<in> set rows" by (auto simp: in_set_enumerate_eq)
  with eq show ?thesis by auto
qed

lemma levenshtein_alloc_ok:
  assumes "fst al \<noteq> None \<and> snd al \<noteq> None"
  shows "levenshtein (fst al) (snd al) a b = int (edit_distance (str_to_lower a) (str_to_lower b))"
proof -
  from assms obtain g h where "fst al = Some g" "snd al = Some h" by auto
  then show ?thesis by (simp add: levenshtein_ed ed_edit_distance str_to_lower_def)
qed

lemma fuzzy_select_elem:
  assumes "\<forall>k. fst (heap k) \<noteq> None \<and> snd (heap k) \<noteq> None"
    and "(r, d) \<in> set (fuzzy_select heap q md mr name_of rows)"
  shows "r \<in> set rows \<and> d = int (edit_distance (str_to_lower (name_of r)) (str_to_lower q)) \<and> d \<le> md"
proof -
  from assms(2) have "(r, d) \<in> set (filter (\<lambda>(r, dist). dist \<le> md) (with_dist heap q name_of rows))"
    using sql_limit_subset by (fastforce simp: fuzzy_select_def)
  then have in_wd: "(r, d) \<in> set (with_dist heap q name_of rows)" and le: "d \<le> md" by auto
  from with_dist_elem[OF in_wd] obtain k where r: "r \<in> set rows"
      and d: "d = levenshtein (fst (heap k)) (snd (heap k)) (name_of r) q" by blast
  from assms(1) have "fst (heap k) \<noteq> None \<and> snd (heap k) \<noteq> None" by blast
  from levenshtein_alloc_ok[OF this] d r le show ?thesis by simp
qed

lemma fuzzy_select_sorted:
  "sorted (map (\<lambda>(r, dist). (dist, name_of r)) (fuzzy_select heap q md mr name_of rows))"
  unfolding fuzzy_select_def by (rule sql_limit_sorted) (rule sorted_sort_key)

lemma fuzzy_select_length:
  "0 \<le> mr \<Longrightarrow> int (length (fuzzy_select heap q md mr name_of rows)) \<le> mr"
  unfolding fuzzy_select_def by (rule sql_limit_length)

lemma like_percent: "like_match (CHR ''%'' # ps) s \<longleftrightarrow> (\<exists>u v. s = u @ v \<and> like_match ps v)"
proof (induction s)
  case Nil
  then show ?case by simp
next
  case (Cons c r)
  have "like_match (CHR ''%'' # ps) (c # r) \<longleftrightarrow>
          like_match ps (c # r) \<or> (\<exists>u v. r = u @ v \<and> like_match ps v)"
    using Cons by simp
  also have "\<dots> \<longleftrightarrow> (\<exists>u v. c # r = u @ v \<and> like_match ps v)"
  proof
    assume "like_match ps (c # r) \<or> (\<exists>u v. r = u @ v \<and> like_match ps v)"
    then show "\<exists>u v. c # r = u @ v \<and> like_match ps v"
    proof
      assume "like_match ps (c # r)"
      then have "c # r = [] @ (c # r) \<and> like_match ps (c # r)" by simp
      then show ?thesis by blast
    next
      assume "\<exists>u v. r = u @ v \<and> like_match ps v"
      then obtain u v where "r = u @ v" "like_match ps v" by blast
      then have "c # r = (c # u) @ v \<and> like_match ps v" by simp
      then show ?thesis by blast
    qed
  next
    assume "\<exists>u v. c # r = u @ v \<and> like_match ps v"
    then obtain u v where uv: "c # r = u @ v" "like_match ps v" by blast
    show "like_match ps (c # r) \<or> (\<exists>u v. r = u @ v \<and> like_match ps v)"
    proof (cases u)
      case Nil
      with uv show ?thesis by simp
    next
      case (Cons a u')
      with uv have "r = u' @ v" by simp
      with uv(2) show ?thesis by blast
    qed
  qed
  finally show ?case .
qed

lemma like_percent_only: "like_match ''%'' s"
proof -
  have "s = s @ [] \<and> like_match [] []" by simp
  then have "\<exists>u v. s = u @ v \<and> like_match [] v" by blast
  then show ?thesis by (simp only: like_percent)
qed

lemma like_literal:
  assumes "CHR ''%'' \<notin> set lit" "CHR ''_'' \<notin> set lit"
  shows "like_match (lit @ ps) s \<longleftrightarrow>
           (\<exists>s1 s2. s = s1 @ s2 \<and> map tolower s1 = map tolower lit \<and> like_match ps s2)"
  using assms
proof (induction lit arbitrary: s)
  case Nil
  then show ?case by simp
next
  case (Cons p l)
  then have p: "p \<noteq> CHR ''%''" "p \<noteq> CHR ''_''" and l: "CHR ''%'' \<notin> set l" "CHR ''_'' \<notin> set l"
    by auto
  note IH = Cons.IH[OF l]
  show ?case
  proof (cases s)
    case Nil
    then show ?thesis using p by simp
  next
    case (Cons c r)
    have "like_match ((p # l) @ ps) (c # r) \<longleftrightarrow> tolower p = tolower c \<and> like_match (l @ ps) r"
      using p by simp
    also have "\<dots> \<longleftrightarrow> tolower p = tolower c \<and>
        (\<exists>s1 s2. r = s1 @ s2 \<and> map tolower s1 = map tolower l \<and> like_match ps s2)"
      using IH[of r] by simp
    also have "\<dots> \<longleftrightarrow>
        (\<exists>s1 s2. c # r = s1 @ s2 \<and> map tolower s1 = map tolower (p # l) \<and> like_match ps s2)"
    proof
      assume "tolower p = tolower c \<and>
        (\<exists>s1 s2. r = s1 @ s2 \<and> map tolower s1 = map tolower l \<and> like_match ps s2)"
      then obtain s1 s2 where "tolower p = tolower c" "r = s1 @ s2"
          "map tolower s1 = map tolower l" "like_match ps s2" by blast
      then have "c # r = (c # s1) @ s2 \<and> map tolower (c # s1) = map tolower (p # l) \<and> like_match ps s2"
        by simp
      then show "\<exists>s1 s2. c # r = s1 @ s2 \<and> map tolower s1 = map tolower (p # l) \<and> like_match ps s2"
        by blast
    next
      assume "\<exists>s1 s2. c # r = s1 @ s2 \<and> map tolower s1 = map tolower (p # l) \<and> like_match ps s2"
      then obtain s1 s2 where s: "c # r = s1 @ s2" "map tolower s1 = map tolower (p # l)"
          "like_match ps s2" by blast
      from s(2) obtain c' s1' where s1: "s1 = c' # s1'" by (cases s1) auto
      with s have "c' = c" "r = s1' @ s2" "tolower c' = tolower p" "map tolower s1' = map tolower l"
        by auto
      with s(3) show "tolower p = tolower c \<and>
        (\<exists>s1 s2. r = s1 @ s2 \<and> map tolower s1 = map tolower l \<and> like_match ps s2)"
        by auto
    qed
    finally show ?thesis using Cons by simp
  qed
qed

lemma like_contains:
  assumes "CHR ''%'' \<notin> set sub" "CHR ''_'' \<notin> set sub"
  shows "like_match (''%'' @ sub @ ''%'') str \<longleftrightarrow> contains_nocase str sub"
proof -
  have "like_match (''%'' @ sub @ ''%'') str \<longleftrightarrow>
          (\<exists>u v. str = u @ v \<and> like_match (sub @ ''%'') v)"
    using like_percent[of "sub @ ''%''" str] by simp
  also have "\<dots> \<longleftrightarrow> (\<exists>u s1 s2. str = u @ s1 @ s2 \<and> map tolower s1 = map tolower sub)"
    using like_literal[OF assms, of "''%''"] like_percent_only by auto
  also have "\<dots> \<longleftrightarrow> contains_nocase str sub"
  proof
    assume "\<exists>u s1 s2. str = u @ s1 @ s2 \<and> map tolower s1 = map tolower sub"
    then obtain u s1 s2 where "str = u @ s1 @ s2" "map tolower s1 = map tolower sub" by blast
    then have "str_to_lower str = map tolower u @ str_to_lower sub @ map tolower s2"
      by (simp add: str_to_lower_def)
    then show "contains_nocase str sub" unfolding contains_nocase_def by blast
  next
    assume "contains_nocase str sub"
    then obtain u v where uv: "map tolower str = u @ map tolower sub @ v"
      unfolding contains_nocase_def str_to_lower_def by blast
    then obtain t1 t23 where t: "str = t1 @ t23" "u = map tolower t1" "map tolower sub @ v = map tolower t23"
      by (auto simp: map_eq_append_conv)
    from t(3) obtain t2 t3 where t': "t23 = t2 @ t3" "map tolower sub = map tolower t2"
      by (auto simp: append_eq_map_conv)
    with t show "\<exists>u s1 s2. str = u @ s1 @ s2 \<and> map tolower s1 = map tolower sub"
      by auto
  qed
  finally show ?thesis .
qed

lemma join_names_used:
  "(row, x) \<in> set (join_names True links names pid rows) \<longleftrightarrow>
     row \<in> set rows \<and>
     (\<exists>link \<in> set links. fst link = pid row \<and> (\<exists>n \<in> set names. fst n = snd link \<and> x = Some (snd n)))"
  by (auto simp: join_names_def)

lemma join_names_unused:
  "(row, x) \<in> set (join_names False links names pid rows) \<longleftrightarrow> row \<in> set rows \<and> x = None"
  by (auto simp: join_names_def)

lemma join_names_filter:
  "(\<exists>x. (row, x) \<in> set (join_names used links names pid rows) \<and>
        (if used then nocase_eq (the x) wanted else True)) \<longleftrightarrow>
     row \<in> set rows \<and> (used \<longrightarrow> in_named links names (pid row) wanted)"
proof (cases used)
  case True
  have "(\<exists>x. (row, x) \<in> set (join_names True links names pid rows) \<and> nocase_eq (the x) wanted) \<longleftrightarrow>
     row \<in> set rows \<and> in_named links names (pid row) wanted"
    unfolding in_named_def join_names_used by fastforce
  with True show ?thesis by simp
next
  case False
  then show ?thesis by (simp add: join_names_unused)
qed

lemma structured_search_rows:
  assumes ps: "t_paths db = Some ps" and cs: "t_categories db = Some cs"
    and pcs: "t_path_categories db = Some pcs" and ts: "t_tags db = Some ts"
    and pts: "t_path_tags db = Some pts"
    and wild: "has_filter name \<longrightarrow> CHR ''%'' \<notin> set (the name) \<and> CHR ''_'' \<notin> set (the name)"
  shows "(\<exists>c t. ((p, c), t) \<in> set (join_names (has_filter tag) pts ts (\<lambda>row. p_id (fst row))
                                    (join_names (has_filter category) pcs cs p_id ps))
                \<and> where_clause category tag name ((p, c), t)) \<longleftrightarrow>
           p \<in> set ps \<and> satisfies db category tag name p"
proof -
  define j1 where "j1 = join_names (has_filter category) pcs cs p_id ps"
  define joined where "joined = join_names (has_filter tag) pts ts (\<lambda>row. p_id (fst row)) j1"
  let ?condC = "\<lambda>c. if has_filter category then nocase_eq (the c) (the category) else True"
  let ?condT = "\<lambda>t. if has_filter tag then nocase_eq (the t) (the tag) else True"
  let ?condN = "if has_filter name then like_match (''%'' @ the name @ ''%'') (p_name p) else True"
  have n: "?condN \<longleftrightarrow> (has_filter name \<longrightarrow> contains_nocase (p_name p) (the name))"
    using wild like_contains[of "the name" "p_name p"] by auto
  have t: "(\<exists>t. ((p, c), t) \<in> set joined \<and> ?condT t) \<longleftrightarrow>
        (p, c) \<in> set j1 \<and> (has_filter tag \<longrightarrow> in_named pts ts (p_id p) (the tag))" for c
    unfolding joined_def
    using join_names_filter[of "(p, c)" "has_filter tag" pts ts "\<lambda>row. p_id (fst row)" j1 "the tag"]
    by simp
  have c: "(\<exists>c. (p, c) \<in> set j1 \<and> ?condC c) \<longleftrightarrow>
        p \<in> set ps \<and> (has_filter category \<longrightarrow> in_named pcs cs (p_id p) (the category))"
    unfolding j1_def
    using join_names_filter[of p "has_filter category" pcs cs p_id ps "the category"] by simp
  have "(\<exists>c t. ((p, c), t) \<in> set joined \<and> where_clause category tag name ((p, c), t)) \<longleftrightarrow>
        (\<exists>c. (\<exists>t. ((p, c), t) \<in> set joined \<and> ?condT t) \<and> ?condC c \<and> ?condN)"
    unfolding where_clause_def by auto
  also have "\<dots> \<longleftrightarrow> (\<exists>c. (p, c) \<in> set j1 \<and> ?condC c)
        \<and> (has_filter tag \<longrightarrow> in_named pts ts (p_id p) (the tag)) \<and> ?condN"
    unfolding t by auto
  also have "\<dots> \<longleftrightarrow> p \<in> set ps \<and> satisfies db category tag name p"
    unfolding c n satisfies_def using cs pcs ts pts by auto
  finally show ?thesis unfolding joined_def j1_def .
qed

lemma find_some:
  assumes "x \<in> set xs" "P x"
  shows "\<exists>y. find P xs = Some y \<and> y \<in> set xs \<and> P y"
  using assms by (induction xs) auto

section \<open>The claims\<close>

subsection \<open>Edit distance\<close>

text \<open>
  Claim C1. For all strings \<open>a\<close> and \<open>b\<close>, when both working rows are allocated (whatever
  they hold at first), \<^verbatim>\<open>levenshtein(a, b)\<close> is the least number of single-character
  insertions, deletions and substitutions that turn the ASCII-lowercase folding of \<open>a\<close>
  into that of \<open>b\<close>: that many edits do it, and no smaller number does. In particular
  \<^verbatim>\<open>levenshtein(s, s) = 0\<close>, and the distance between the empty string and \<open>s\<close> is
  the length of \<open>s\<close> (with no allocation at all).
\<close>

theorem levenshtein_minimal_edits:
  "(edit_step ^^ nat (levenshtein (Some g_prev) (Some g_cur) a b)) (str_to_lower a) (str_to_lower b)
   \<and> (\<forall>n. (edit_step ^^ n) (str_to_lower a) (str_to_lower b)
          \<longrightarrow> levenshtein (Some g_prev) (Some g_cur) a b \<le> int n)
   \<and> levenshtein (Some g_prev) (Some g_cur) a b = int (edit_distance (str_to_lower a) (str_to_lower b))
   \<and> levenshtein (Some g_prev) (Some g_cur) s s = 0
   \<and> levenshtein m_prev m_cur [] s = int (length s)
   \<and> levenshtein m_prev m_cur s [] = int (length s)"
proof (intro conjI allI impI)
  show "(edit_step ^^ nat (levenshtein (Some g_prev) (Some g_cur) a b)) (str_to_lower a) (str_to_lower b)"
    by (simp add: levenshtein_ed str_to_lower_def ed_upper)
  show "levenshtein (Some g_prev) (Some g_cur) a b \<le> int n"
    if "(edit_step ^^ n) (str_to_lower a) (str_to_lower b)" for n
    using ed_lower[OF that] by (simp add: levenshtein_ed str_to_lower_def)
  show "levenshtein (Some g_prev) (Some g_cur) a b = int (edit_distance (str_to_lower a) (str_to_lower b))"
    by (simp add: levenshtein_ed str_to_lower_def ed_edit_distance)
  show "levenshtein (Some g_prev) (Some g_cur) s s = 0"
    by (simp add: levenshtein_ed ed_refl)
  show "levenshtein m_prev m_cur [] s = int (length s)"
    by (simp add: levenshtein_def)
  show "levenshtein m_prev m_cur s [] = int (length s)"
    by (simp add: levenshtein_def)
qed

text \<open>The theorem of claim C1 at the strings \<^verbatim>\<open>Ab\<close> and \<^verbatim>\<open>b\<close>, one deletion apart.\<close>

theorem levenshtein_minimal_edits_witness:
  "(edit_step ^^ 1) (str_to_lower ''Ab'') (str_to_lower ''b'')
   \<and> levenshtein (Some (\<lambda>i. 7)) (Some (\<lambda>i. - 3)) ''Ab'' ''b'' \<le> 1
   \<and> levenshtein (Some (\<lambda>i. 7)) (Some (\<lambda>i. - 3)) ''Ab'' ''b'' = 1"
proof -
  have l: "str_to_lower ''Ab'' = ''ab''" "str_to_lower ''b'' = ''b''"
    by code_simp+
  have "edit_step ''ab'' ''b''"
    using edit_step.deletion[of "[]" "CHR ''a''" "''b''"] by simp
  then have h: "(edit_step ^^ 1) (str_to_lower ''Ab'') (str_to_lower ''b'')"
    unfolding l by (simp add: OO_def)
  have e: "levenshtein (Some (\<lambda>i. 7)) (Some (\<lambda>i. - 3)) ''Ab'' ''b'' = 1"
    by code_simp
  from levenshtein_minimal_edits[of "\<lambda>i. 7" "\<lambda>i. - 3" "''Ab''" "''b''"] h
  have "levenshtein (Some (\<lambda>i. 7)) (Some (\<lambda>i. - 3)) ''Ab'' ''b'' \<le> int 1"
    by blast
  with h e show ?thesis by simp
qed

text \<open>
  Claim C10. \<^verbatim>\<open>levenshtein(a, b)\<close> is negative exactly when it reaches its two
  allocations (both strings non-empty) and one of them fails, and it is then the sentinel
  \<open>- 1\<close>; when both allocations succeed the result is not negative. The SQL function
  hands the result on as it is, the sentinel included.
\<close>

theorem levenshtein_sentinel:
  "(levenshtein m_prev m_cur a b < 0) = (a \<noteq> [] \<and> b \<noteq> [] \<and> (m_prev = None \<or> m_cur = None))
   \<and> (levenshtein m_prev m_cur a b < 0) = (levenshtein m_prev m_cur a b = - 1)
   \<and> 0 \<le> levenshtein (Some g_prev) (Some g_cur) a b
   \<and> sqlite_levenshtein m_prev m_cur [Some a, Some b] = Result_int (levenshtein m_prev m_cur a b)"
proof -
  have ok: "0 \<le> levenshtein (Some g) (Some h) a b" for g h
    by (simp add: levenshtein_ed)
  have bad: "levenshtein m_prev m_cur a b = - 1"
    if "a \<noteq> []" "b \<noteq> []" "m_prev = None \<or> m_cur = None"
    using that by (auto simp: levenshtein_def Let_def split: option.splits)
  have empty: "0 \<le> levenshtein m_prev m_cur a b" if "a = [] \<or> b = []"
    using that by (auto simp: levenshtein_def)
  have iff: "(levenshtein m_prev m_cur a b < 0) = (a \<noteq> [] \<and> b \<noteq> [] \<and> (m_prev = None \<or> m_cur = None))"
  proof (cases "a \<noteq> [] \<and> b \<noteq> [] \<and> (m_prev = None \<or> m_cur = None)")
    case True
    then show ?thesis using bad by simp
  next
    case False
    then consider "a = [] \<or> b = []" | g h where "m_prev = Some g" "m_cur = Some h" by auto
    then have "0 \<le> levenshtein m_prev m_cur a b"
      using empty ok by cases auto
    with False show ?thesis by simp
  qed
  have eq: "(levenshtein m_prev m_cur a b < 0) = (levenshtein m_prev m_cur a b = - 1)"
    using iff bad by auto
  have sq: "sqlite_levenshtein m_prev m_cur [Some a, Some b] = Result_int (levenshtein m_prev m_cur a b)"
    by (simp add: sqlite_levenshtein_def)
  show ?thesis using iff eq ok sq by blast
qed

subsection \<open>Fuzzy search\<close>

text \<open>
  Claim C3, as the code has it. When every allocation succeeds, each row a fuzzy search
  lists (of tags or of paths) is a row of the table, listed with its edit distance to the
  query, and that distance is at most the threshold (for paths: the caller's, or the
  setting \<^verbatim>\<open>fuzzy_default_distance\<close> when the caller's is negative). The list is sorted by
  distance, ties by the \<^emph>\<open>byte\<close> order of the name, and has at most \<^verbatim>\<open>max_results\<close>
  entries when that setting is not negative. A search whose table exists does list.
\<close>

theorem fuzzy_search_sorted_bounded:
  assumes "\<forall>k. fst (heap k) \<noteq> None \<and> snd (heap k) \<noteq> None"
  shows "(\<forall>res. search_tags_fuzzy heap db query = Some res \<longrightarrow>
            (\<forall>(row, dist) \<in> set res.
                row \<in> set (the (t_tags db))
                \<and> dist = int (edit_distance (str_to_lower (snd row)) (str_to_lower query))
                \<and> dist \<le> get_int_setting db ''fuzzy_default_distance'' DEFAULT_FUZZY_DISTANCE)
            \<and> sorted (map (\<lambda>(row, dist). (dist, snd row)) res)
            \<and> (0 \<le> get_int_setting db ''max_results'' DEFAULT_MAX_RESULTS \<longrightarrow>
                 int (length res) \<le> get_int_setting db ''max_results'' DEFAULT_MAX_RESULTS))
       \<and> (\<forall>res. search_paths_fuzzy heap db query max_distance = Some res \<longrightarrow>
            (\<forall>(row, dist) \<in> set res.
                row \<in> set (the (t_paths db))
                \<and> dist = int (edit_distance (str_to_lower (p_name row)) (str_to_lower query))
                \<and> dist \<le> (if max_distance < 0
                            then get_int_setting db ''fuzzy_default_distance'' DEFAULT_FUZZY_DISTANCE
                            else max_distance))
            \<and> sorted (map (\<lambda>(row, dist). (dist, p_name row)) res)
            \<and> (0 \<le> get_int_setting db ''max_results'' DEFAULT_MAX_RESULTS \<longrightarrow>
                 int (length res) \<le> get_int_setting db ''max_results'' DEFAULT_MAX_RESULTS))
       \<and> (t_tags db \<noteq> None \<longrightarrow> search_tags_fuzzy heap db query \<noteq> None)
       \<and> (t_paths db \<noteq> None \<longrightarrow> search_paths_fuzzy heap db query max_distance \<noteq> None)"
proof (intro conjI allI impI)
  fix res
  assume a: "search_tags_fuzzy heap db query = Some res"
  then obtain rows where rows: "t_tags db = Some rows"
    and res: "res = fuzzy_select heap query (get_int_setting db ''fuzzy_default_distance'' DEFAULT_FUZZY_DISTANCE)
                 (get_int_setting db ''max_results'' DEFAULT_MAX_RESULTS) snd rows"
    by (auto simp: search_tags_fuzzy_def Let_def split: option.splits)
  show "\<forall>(row, dist) \<in> set res.
                row \<in> set (the (t_tags db))
                \<and> dist = int (edit_distance (str_to_lower (snd row)) (str_to_lower query))
                \<and> dist \<le> get_int_setting db ''fuzzy_default_distance'' DEFAULT_FUZZY_DISTANCE"
    using fuzzy_select_elem[OF assms] unfolding res rows by fastforce
  show "sorted (map (\<lambda>(row, dist). (dist, snd row)) res)"
    unfolding res by (rule fuzzy_select_sorted)
  show "int (length res) \<le> get_int_setting db ''max_results'' DEFAULT_MAX_RESULTS"
    if "0 \<le> get_int_setting db ''max_results'' DEFAULT_MAX_RESULTS"
    unfolding res by (rule fuzzy_select_length[OF that])
next
  fix res
  let ?md = "if max_distance < 0
             then get_int_setting db ''fuzzy_default_distance'' DEFAULT_FUZZY_DISTANCE
             else max_distance"
  assume a: "search_paths_fuzzy heap db query max_distance = Some res"
  then obtain rows where rows: "t_paths db = Some rows"
    and res: "res = fuzzy_select heap query ?md
                 (get_int_setting db ''max_results'' DEFAULT_MAX_RESULTS) p_name rows"
    by (auto simp: search_paths_fuzzy_def Let_def split: option.splits)
  show "\<forall>(row, dist) \<in> set res.
                row \<in> set (the (t_paths db))
                \<and> dist = int (edit_distance (str_to_lower (p_name row)) (str_to_lower query))
                \<and> dist \<le> ?md"
    using fuzzy_select_elem[OF assms] unfolding res rows by fastforce
  show "sorted (map (\<lambda>(row, dist). (dist, p_name row)) res)"
    unfolding res by (rule fuzzy_select_sorted)
  show "int (length res) \<le> get_int_setting db ''max_results'' DEFAULT_MAX_RESULTS"
    if "0 \<le> get_int_setting db ''max_results'' DEFAULT_MAX_RESULTS"
    unfolding res by (rule fuzzy_select_length[OF that])
next
  assume "t_tags db \<noteq> None"
  then show "search_tags_fuzzy heap db query \<noteq> None"
    by (auto simp: search_tags_fuzzy_def Let_def)
next
  assume "t_paths db \<noteq> None"
  then show "search_paths_fuzzy heap db query max_distance \<noteq> None"
    by (auto simp: search_paths_fuzzy_def Let_def)
qed

text \<open>The theorem of claim C3 at the tags \<^verbatim>\<open>abc\<close>, \<^verbatim>\<open>abxd\<close> and the query \<^verbatim>\<open>abcd\<close>.\<close>

theorem fuzzy_search_sorted_bounded_witness:
  "(\<forall>k. fst (calm_heap k) \<noteq> None \<and> snd (calm_heap k) \<noteq> None)
   \<and> search_tags_fuzzy calm_heap abc_store ''abcd'' = Some [((1, ''abc''), 1), ((2, ''abxd''), 1)]
   \<and> search_paths_fuzzy calm_heap abc_store ''abcd'' 2 = Some [(sample_path 1 ''abc'', 1)]
   \<and> sorted (map (\<lambda>(row, dist). (dist, snd row)) [((1, ''abc''), 1), ((2, ''abxd''), (1::int))])
   \<and> sorted (map (\<lambda>(row, dist). (dist, p_name row)) [(sample_path 1 ''abc'', (1::int))])
   \<and> get_int_setting abc_store ''max_results'' DEFAULT_MAX_RESULTS = 20
   \<and> int (length [((1::nat, ''abc''), 1::int), ((2, ''abxd''), 1)]) \<le> 20"
proof -
  have h: "\<forall>k. fst (calm_heap k) \<noteq> None \<and> snd (calm_heap k) \<noteq> None"
    by (simp add: calm_heap_def)
  have t: "search_tags_fuzzy calm_heap abc_store ''abcd'' = Some [((1, ''abc''), 1), ((2, ''abxd''), 1)]"
    by code_simp
  have p: "search_paths_fuzzy calm_heap abc_store ''abcd'' 2 = Some [(sample_path 1 ''abc'', 1)]"
    by code_simp
  have m: "get_int_setting abc_store ''max_results'' DEFAULT_MAX_RESULTS = 20"
    by code_simp
  from fuzzy_search_sorted_bounded[OF h, of abc_store "''abcd''" 2] t p m
  show ?thesis using h by simp
qed

text \<open>
  Claim C3 as stated fails: the tags \<^verbatim>\<open>a\<close> and \<^verbatim>\<open>B\<close> are both at distance 1 from the
  query \<^verbatim>\<open>x\<close> and are listed \<^verbatim>\<open>B\<close> first, against the order of the folded names; and
  with \<^verbatim>\<open>max_results\<close> at \<open>- 1\<close> the two entries are more than \<^verbatim>\<open>max_results\<close>.
\<close>

theorem fuzzy_search_counterexample:
  "search_tags_fuzzy calm_heap unlimited_store ''x'' = Some [((2, ''B''), 1), ((1, ''a''), 1)]
   \<and> \<not> sorted_nocase snd (the (search_tags_fuzzy calm_heap unlimited_store ''x''))
   \<and> get_int_setting unlimited_store ''max_results'' DEFAULT_MAX_RESULTS = - 1
   \<and> \<not> int (length (the (search_tags_fuzzy calm_heap unlimited_store ''x'')))
          \<le> get_int_setting unlimited_store ''max_results'' DEFAULT_MAX_RESULTS"
  by code_simp

subsection \<open>Database initialisation\<close>

text \<open>
  Claim C4, as the code has it. When the directory exists and the engine opens the file
  and registers the SQL function, a stored schema version above the supported one is not
  an error: \<^verbatim>\<open>init_database\<close> returns 0 with the store open and unchanged, asking
  nothing, and \<^verbatim>\<open>main\<close> goes on to the interactive loop.
\<close>

theorem future_version_accepted:
  assumes "dir_exists env" "open_ok env" "register_ok env"
    and "get_int_setting db ''schema_version'' 0 > DEFAULT_SCHEMA_VERSION"
  shows "init_database env (Some db) inp = (0, True, Some db, inp)
         \<and> main_starts_cli env (Some db) inp"
proof -
  have "get_int_setting db ''schema_version'' 0 \<noteq> 0"
    using assms(4) by (simp add: DEFAULT_SCHEMA_VERSION_def)
  then have "init_database env (Some db) inp = (0, True, Some db, inp)"
    using assms by (simp add: init_database_def Let_def)
  then show ?thesis by (simp add: main_starts_cli_def)
qed

text \<open>The theorem of claim C4 at a store whose settings say version 2.\<close>

theorem future_version_accepted_witness:
  "dir_exists all_ok \<and> open_ok all_ok \<and> register_ok all_ok
   \<and> get_int_setting version2_store ''schema_version'' 0 > DEFAULT_SCHEMA_VERSION
   \<and> init_database all_ok (Some version2_store) ''n'' = (0, True, Some version2_store, ''n'')"
proof -
  have e: "dir_exists all_ok" "open_ok all_ok" "register_ok all_ok"
    by (simp_all add: all_ok_def)
  have v: "get_int_setting version2_store ''schema_version'' 0 > DEFAULT_SCHEMA_VERSION"
    by code_simp
  from future_version_accepted[OF e v, of "''n''"] e v show ?thesis by simp
qed

text \<open>
  Claim C4 as stated fails: with the stored version 2 above the supported version 1,
  initialisation succeeds and the interactive loop starts.
\<close>

theorem future_version_counterexample:
  "get_int_setting version2_store ''schema_version'' 0 = 2
   \<and> DEFAULT_SCHEMA_VERSION = 1
   \<and> fst (init_database all_ok (Some version2_store) '''') = 0
   \<and> main_starts_cli all_ok (Some version2_store) ''''"
  by code_simp

text \<open>
  Claim C6. On a legacy store (the table of paths, no table of settings) with the
  confirmation declined, \<^verbatim>\<open>init_database\<close> returns \<open>- 1\<close>, the store is what it was,
  and \<^verbatim>\<open>main\<close> does not reach the interactive loop; when the directory exists and the
  engine opens the file and registers the SQL function, the handle is closed again and
  the answer is the only input read.
\<close>

theorem declined_migration_untouched:
  assumes "t_paths db \<noteq> None" and "t_settings db = None"
    and "\<not> fst (get_confirmation inp)"
  shows "fst (init_database env (Some db) inp) = - 1
         \<and> fst (snd (snd (init_database env (Some db) inp))) = Some db
         \<and> \<not> main_starts_cli env (Some db) inp
         \<and> (dir_exists env \<and> open_ok env \<and> register_ok env \<longrightarrow>
              init_database env (Some db) inp = (- 1, False, Some db, snd (get_confirmation inp)))"
proof -
  have v: "get_int_setting db ''schema_version'' 0 = 0"
    using assms(2) by (simp add: get_int_setting_def)
  have t: "\<not> table_exists db ''settings''"
    using assms(2) by (simp add: table_exists_def table_names_def)
  obtain yes rest where c: "get_confirmation inp = (yes, rest)" by (cases "get_confirmation inp")
  with assms(3) have no: "\<not> yes" by simp
  have r: "init_database env (Some db) inp =
      (if \<not> dir_exists env then (- 1, False, Some db, inp)
       else if \<not> open_ok env then (- 1, False, Some db, inp)
       else if \<not> register_ok env then (- 1, True, Some db, inp)
       else (- 1, False, Some db, rest))"
    using v t c no by (simp add: init_database_def Let_def)
  show ?thesis unfolding main_starts_cli_def r using c by simp
qed

text \<open>The theorem of claim C6 at a legacy store with one path and the answer \<^verbatim>\<open>no\<close>.\<close>

theorem declined_migration_untouched_witness:
  "t_paths legacy_store \<noteq> None \<and> t_settings legacy_store = None
   \<and> \<not> fst (get_confirmation ''no\<newline>quit\<newline>'')
   \<and> init_database all_ok (Some legacy_store) ''no\<newline>quit\<newline>''
       = (- 1, False, Some legacy_store, ''quit\<newline>'')"
proof -
  have a: "t_paths legacy_store \<noteq> None" by code_simp
  have b: "t_settings legacy_store = None" by code_simp
  have c: "\<not> fst (get_confirmation ''no\<newline>quit\<newline>'')" by code_simp
  have d: "snd (get_confirmation ''no\<newline>quit\<newline>'') = ''quit\<newline>''" by code_simp
  have e: "dir_exists all_ok \<and> open_ok all_ok \<and> register_ok all_ok" by (simp add: all_ok_def)
  from declined_migration_untouched[OF a b c, of all_ok] e d a b c show ?thesis by simp
qed

subsection \<open>Categories\<close>

text \<open>
  Claim C5 at a failing input: on a freshly initialised store the category \<^verbatim>\<open>Games\<close>
  exists and \<^verbatim>\<open>get_category_id\<close> finds it under the name \<^verbatim>\<open>games\<close>, yet
  \<^verbatim>\<open>create_category("games")\<close> succeeds, returns the new id 6 and adds a row.
\<close>

theorem create_category_other_case:
  "get_category_id fresh_store ''games'' = 1
   \<and> nocase_eq ''Games'' ''games''
   \<and> fst (create_category fresh_store ''games'') = 6
   \<and> t_categories (snd (create_category fresh_store ''games''))
       = Some [(1, ''Games''), (2, ''Music''), (3, ''Photos''), (4, ''Documents''),
               (5, ''Uncategorized''), (6, ''games'')]"
  by code_simp

subsection \<open>Tags and the similarity check\<close>

text \<open>
  Claim C7. If a tag of the store has the name asked for, compared without regard to
  case, \<^verbatim>\<open>get_or_create_tag_with_check\<close> returns the id of such a tag, writes nothing
  to the console (no warning, no prompt), reads no input and leaves the store as it was.
\<close>

theorem existing_tag_returned:
  assumes "t_tags db = Some rows" and "(i, n) \<in> set rows" and "nocase_eq n tag_name"
  shows "(\<exists>row \<in> set rows. nocase_eq (snd row) tag_name
            \<and> result (get_or_create_tag_with_check heap db inp tag_name) = int (fst row))
         \<and> db_after (get_or_create_tag_with_check heap db inp tag_name) = db
         \<and> input_after (get_or_create_tag_with_check heap db inp tag_name) = inp
         \<and> console (get_or_create_tag_with_check heap db inp tag_name) = []"
proof -
  from find_some[of "(i, n)" rows "\<lambda>row. nocase_eq (snd row) tag_name"] assms(2,3)
  obtain row where row: "find (\<lambda>row. nocase_eq (snd row) tag_name) rows = Some row"
      "row \<in> set rows" "nocase_eq (snd row) tag_name" by auto
  then have g: "get_tag_id db tag_name = int (fst row)"
    using assms(1) by (simp add: get_tag_id_def)
  then have "get_or_create_tag_with_check heap db inp tag_name =
      \<lparr>result = int (fst row), db_after = db, input_after = inp, console = []\<rparr>"
    by (simp add: get_or_create_tag_with_check_def Let_def)
  with row show ?thesis by auto
qed

text \<open>The theorem of claim C7 at the tag \<^verbatim>\<open>abxd\<close>, asked for as \<^verbatim>\<open>ABXD\<close>.\<close>

theorem existing_tag_returned_witness:
  "t_tags abc_store = Some [(1, ''abc''), (2, ''abxd'')]
   \<and> nocase_eq ''abxd'' ''ABXD''
   \<and> get_or_create_tag_with_check calm_heap abc_store ''y\<newline>'' ''ABXD''
       = \<lparr>result = 2, db_after = abc_store, input_after = ''y\<newline>'', console = []\<rparr>"
proof -
  have a: "t_tags abc_store = Some [(1, ''abc''), (2, ''abxd'')]" by code_simp
  have b: "(2, ''abxd'') \<in> set [(1::nat, ''abc''), (2, ''abxd'')]" by simp
  have c: "nocase_eq ''abxd'' ''ABXD''" by code_simp
  have d: "result (get_or_create_tag_with_check calm_heap abc_store ''y\<newline>'' ''ABXD'') = 2" by code_simp
  from existing_tag_returned[OF a b c, of calm_heap "''y\<newline>''"] d
  have "get_or_create_tag_with_check calm_heap abc_store ''y\<newline>'' ''ABXD''
       = \<lparr>result = 2, db_after = abc_store, input_after = ''y\<newline>'', console = []\<rparr>"
    by (cases "get_or_create_tag_with_check calm_heap abc_store ''y\<newline>'' ''ABXD''") simp
  with a c show ?thesis by simp
qed

text \<open>
  Claim C2 at a failing input: with the tags \<^verbatim>\<open>abc\<close> and \<^verbatim>\<open>abxd\<close> scanned in this
  order and the new name \<^verbatim>\<open>abcd\<close>, the first tag is a substring of the new name
  (\<^verbatim>\<open>strstr\<close> finds it) and the second is not (in either direction), yet the tag
  reported is \<^verbatim>\<open>abxd\<close>, with \<^verbatim>\<open>is_substring\<close> 0 and the edit distance 1. Scanned in
  the other order, the same two tags give the report \<^verbatim>\<open>abc\<close>, a substring match.
\<close>

theorem substring_match_overwritten:
  "strstr (str_to_lower ''abcd'') (str_to_lower ''abc'') = Some ''abcd''
   \<and> strstr (str_to_lower ''abcd'') (str_to_lower ''abxd'') = None
   \<and> strstr (str_to_lower ''abxd'') (str_to_lower ''abcd'') = None
   \<and> find_similar_tags calm_heap abc_store ''abcd'' MAX_TAG_LENGTH
       = \<lparr>found_count = 2, best_distance = 1, similar_name = ''abxd'',
          similar_distance = Some 1, is_substring = 0\<rparr>
   \<and> console (get_or_create_tag_with_check calm_heap abc_store ''n\<newline>n\<newline>'' ''abcd'')
       = [Warn_distance ''abxd'' (Some 1), Prompt_create ''abcd'', Prompt_use ''abxd'', Cancelled]
   \<and> find_similar_tags calm_heap abxd_first_store ''abcd'' MAX_TAG_LENGTH
       = \<lparr>found_count = 2, best_distance = 1, similar_name = ''abc'',
          similar_distance = Some 1, is_substring = 1\<rparr>"
  by code_simp

text \<open>
  Claim C9. When no tag has the name asked for and \<^verbatim>\<open>find_similar_tags\<close> reports a
  similar one: unless the first confirmation ("create anyway") is given the store stays
  as it was, and when the second ("use existing") is declined too the result is \<open>- 1\<close>,
  the store is unchanged and the last line written is the cancellation.
\<close>

theorem conflict_needs_confirmation:
  assumes "get_tag_id db tag_name < 0"
    and "found_count (find_similar_tags heap db tag_name MAX_TAG_LENGTH) > 0"
  shows "(\<not> fst (get_confirmation inp) \<longrightarrow>
            db_after (get_or_create_tag_with_check heap db inp tag_name) = db)
         \<and> (\<not> fst (get_confirmation inp) \<and> \<not> fst (get_confirmation (snd (get_confirmation inp))) \<longrightarrow>
              result (get_or_create_tag_with_check heap db inp tag_name) = - 1
              \<and> db_after (get_or_create_tag_with_check heap db inp tag_name) = db
              \<and> last (console (get_or_create_tag_with_check heap db inp tag_name)) = Cancelled)"
proof -
  obtain y1 r1 where c1: "get_confirmation inp = (y1, r1)" by (cases "get_confirmation inp")
  obtain y2 r2 where c2: "get_confirmation r1 = (y2, r2)" by (cases "get_confirmation r1")
  have g: "\<not> get_tag_id db tag_name \<ge> 0" using assms(1) by simp
  show ?thesis
    using assms(2) g c1 c2
    by (simp add: get_or_create_tag_with_check_def Let_def)
qed

text \<open>The theorem of claim C9 at the new name \<^verbatim>\<open>abcd\<close> and the answers \<^verbatim>\<open>n\<close>, \<^verbatim>\<open>n\<close>.\<close>

theorem conflict_needs_confirmation_witness:
  "get_tag_id abc_store ''abcd'' < 0
   \<and> found_count (find_similar_tags calm_heap abc_store ''abcd'' MAX_TAG_LENGTH) > 0
   \<and> \<not> fst (get_confirmation ''n\<newline>n\<newline>'')
   \<and> \<not> fst (get_confirmation (snd (get_confirmation ''n\<newline>n\<newline>'')))
   \<and> result (get_or_create_tag_with_check calm_heap abc_store ''n\<newline>n\<newline>'' ''abcd'') = - 1
   \<and> db_after (get_or_create_tag_with_check calm_heap abc_store ''n\<newline>n\<newline>'' ''abcd'') = abc_store"
proof -
  have a: "get_tag_id abc_store ''abcd'' < 0" by code_simp
  have b: "found_count (find_similar_tags calm_heap abc_store ''abcd'' MAX_TAG_LENGTH) > 0" by code_simp
  have c: "\<not> fst (get_confirmation ''n\<newline>n\<newline>'')" by code_simp
  have d: "\<not> fst (get_confirmation (snd (get_confirmation ''n\<newline>n\<newline>'')))" by code_simp
  from conflict_needs_confirmation[OF a b, of "''n\<newline>n\<newline>''"] a b c d show ?thesis by simp
qed

subsection \<open>Structured search\<close>

text \<open>
  Claim C8, as the code has it. On a store with all its tables, and a name filter of ASCII
  characters, at most the 255 bytes that \<^verbatim>\<open>parse_find_args\<close> delivers, and free of the
  characters \<^verbatim>\<open>%\<close> and \<^verbatim>\<open>_\<close>, structured search lists the rows of exactly the paths
  that satisfy every filter in use (an absent or empty filter constrains nothing; names are
  compared without regard to ASCII case), each row once, in the byte order of the path,
  cut by \<^verbatim>\<open>LIMIT max_results\<close>: at most \<^verbatim>\<open>max_results\<close> rows when that is not negative.
  The names of the paths, the categories, the tags and the two other filters are any bytes.
\<close>

theorem structured_search_conjunction:
  assumes "t_paths db \<noteq> None" "t_categories db \<noteq> None" "t_path_categories db \<noteq> None"
    and "t_tags db \<noteq> None" "t_path_tags db \<noteq> None"
    and "has_filter name \<longrightarrow>
           is_ascii (the name) \<and> length (the name) \<le> 255
           \<and> CHR ''%'' \<notin> set (the name) \<and> CHR ''_'' \<notin> set (the name)"
  shows "\<exists>rows.
           structured_search db category tag name
             = Some (sql_limit (get_int_setting db ''max_results'' DEFAULT_MAX_RESULTS) rows)
           \<and> set rows = {(p_path p, p_is_directory p, p_size p) | p.
                          p \<in> set (the (t_paths db)) \<and> satisfies db category tag name p}
           \<and> distinct rows
           \<and> sorted (map fst rows)
           \<and> (0 \<le> get_int_setting db ''max_results'' DEFAULT_MAX_RESULTS \<longrightarrow>
                int (length (sql_limit (get_int_setting db ''max_results'' DEFAULT_MAX_RESULTS) rows))
                  \<le> get_int_setting db ''max_results'' DEFAULT_MAX_RESULTS)"
proof -
  from assms obtain ps cs pcs ts pts where tb: "t_paths db = Some ps" "t_categories db = Some cs"
      "t_path_categories db = Some pcs" "t_tags db = Some ts" "t_path_tags db = Some pts"
    by auto
  from assms(6)
  have wild: "has_filter name \<longrightarrow> CHR ''%'' \<notin> set (the name) \<and> CHR ''_'' \<notin> set (the name)"
    by blast
  define joined where "joined =
      join_names (has_filter tag) pts ts (\<lambda>row. p_id (fst row))
        (join_names (has_filter category) pcs cs p_id ps)"
  define columns where "columns =
      map (\<lambda>row. case row of ((p, _), _) \<Rightarrow> (p_path p, p_is_directory p, p_size p))
        (filter (where_clause category tag name) joined)"
  define rows where "rows = sort_key fst (remdups columns)"
  have key: "(\<exists>c t. ((p, c), t) \<in> set joined \<and> where_clause category tag name ((p, c), t)) \<longleftrightarrow>
           p \<in> set ps \<and> satisfies db category tag name p" for p
    unfolding joined_def by (rule structured_search_rows[OF tb wild])
  have res: "structured_search db category tag name
      = Some (sql_limit (get_int_setting db ''max_results'' DEFAULT_MAX_RESULTS) rows)"
    using tb by (simp add: structured_search_def Let_def rows_def columns_def joined_def)
  have "set columns = {(p_path p, p_is_directory p, p_size p) | p.
          \<exists>c t. ((p, c), t) \<in> set joined \<and> where_clause category tag name ((p, c), t)}"
    unfolding columns_def by (auto simp: image_iff) force
  then have cols: "set rows = {(p_path p, p_is_directory p, p_size p) | p.
          p \<in> set (the (t_paths db)) \<and> satisfies db category tag name p}"
    unfolding key rows_def using tb(1) by simp
  have d: "distinct rows" by (simp add: rows_def)
  have s: "sorted (map fst rows)" by (simp add: rows_def)
  have l: "int (length (sql_limit n rows)) \<le> n" if "0 \<le> n" for n
    using that by (simp add: sql_limit_def)
  show ?thesis using res cols d s l by blast
qed

text \<open>The theorem of claim C8 at the filters category \<^verbatim>\<open>games\<close> and name \<^verbatim>\<open>zel\<close>.\<close>

theorem structured_search_conjunction_witness:
  "t_paths games_store \<noteq> None \<and> t_categories games_store \<noteq> None
   \<and> t_path_categories games_store \<noteq> None \<and> t_tags games_store \<noteq> None
   \<and> t_path_tags games_store \<noteq> None
   \<and> has_filter (Some ''zel'') \<and> is_ascii ''zel'' \<and> length ''zel'' \<le> 255
   \<and> CHR ''%'' \<notin> set ''zel'' \<and> CHR ''_'' \<notin> set ''zel''
   \<and> structured_search games_store (Some ''games'') None (Some ''zel'') = Some [(''/Zelda'', 0, Some 3)]
   \<and> (\<exists>rows. Some [(''/Zelda'', 0::int, Some (3::int))] = Some (sql_limit 20 rows)
         \<and> distinct rows \<and> sorted (map fst rows))"
proof -
  have t: "t_paths games_store \<noteq> None" "t_categories games_store \<noteq> None"
    "t_path_categories games_store \<noteq> None" "t_tags games_store \<noteq> None"
    "t_path_tags games_store \<noteq> None"
    by code_simp+
  have f: "has_filter (Some ''zel'')" "is_ascii ''zel''" "length ''zel'' \<le> 255"
    "CHR ''%'' \<notin> set ''zel''" "CHR ''_'' \<notin> set ''zel''"
    by code_simp+
  then have w: "has_filter (Some ''zel'') \<longrightarrow>
      is_ascii (the (Some ''zel'')) \<and> length (the (Some ''zel'')) \<le> 255
      \<and> CHR ''%'' \<notin> set (the (Some ''zel'')) \<and> CHR ''_'' \<notin> set (the (Some ''zel''))"
    by simp
  have r: "structured_search games_store (Some ''games'') None (Some ''zel'') = Some [(''/Zelda'', 0, Some 3)]"
    by code_simp
  have m: "get_int_setting games_store ''max_results'' DEFAULT_MAX_RESULTS = 20"
    by code_simp
  from structured_search_conjunction[OF t w, of "Some ''games''" None]
  have "\<exists>rows. Some [(''/Zelda'', 0::int, Some (3::int))] = Some (sql_limit 20 rows)
         \<and> distinct rows \<and> sorted (map fst rows)"
    unfolding r m by blast
  with t f r show ?thesis by blast
qed

text \<open>
  Claim C8 as stated fails: with \<^verbatim>\<open>max_results\<close> at \<open>- 1\<close> and the name filter \<^verbatim>\<open>_\<close>,
  the path named \<^verbatim>\<open>abc\<close> is listed, though its name does not contain the filter, and
  the one entry is more than \<^verbatim>\<open>max_results\<close>.
\<close>

theorem structured_search_counterexample:
  "get_int_setting unlimited_store ''max_results'' DEFAULT_MAX_RESULTS = - 1
   \<and> structured_search unlimited_store None None (Some ''_'') = Some [(''/abc'', 0, Some 3)]
   \<and> strstr (str_to_lower ''abc'') (str_to_lower ''_'') = None
   \<and> \<not> int (length (the (structured_search unlimited_store None None (Some ''_''))))
         \<le> get_int_setting unlimited_store ''max_results'' DEFAULT_MAX_RESULTS"
  by code_simp

end
